theory Spec2Isabelle
  imports Main "HOL-Library.Word" "HOL-Library.Monad_Syntax" "HOL-Library.List_Lexorder"
begin

section \<open>The view type of \<^verbatim>\<open>folly/Range.h\<close>\<close>

text \<open>
  \<^verbatim>\<open>Range<Iter>\<close> keeps two iterators \<^verbatim>\<open>b_\<close> and \<^verbatim>\<open>e_\<close>. The
  iterators of a \<^verbatim>\<open>Range<const T*>\<close> are pointers into a buffer the view does not
  own; here a pointer is an index into that buffer, and the record carries the buffer
  (\<open>mem\<close>) next to the two iterators, so that a read through an iterator is a lookup
  in \<open>mem\<close>. Nothing in the header writes to the buffer.

  \<^verbatim>\<open>size_t\<close> values are natural numbers; every size and offset the functions below
  compute stays under \<open>2 ^ 64\<close> for a view of a buffer that fits the address space, and
  the one place where the header narrows a \<^verbatim>\<open>size_t\<close> (in \<^verbatim>\<open>compare\<close>) has the
  wrap-around written out.

  A result of type \<open>'a option\<close> is \<open>None\<close> when the call stops the program: a failed
  \<^verbatim>\<open>assert\<close> or \<^verbatim>\<open>CHECK_*\<close>, or a read through an iterator outside the view.
\<close>

record 'a Range =
  mem :: "'a list"
  b_iter :: nat
  e_iter :: nat

text \<open>\<^verbatim>\<open>static const size_type npos = -1\<close>, the largest \<^verbatim>\<open>size_t\<close>.\<close>

definition npos :: nat where
  "npos = 2 ^ 64 - 1"

text \<open>The exception of \<^verbatim>\<open>at\<close>.\<close>

datatype exn = out_of_range string

text \<open>
  A read \<^verbatim>\<open>p[0]\<close> through an iterator \<open>p\<close> of the view. The header does not check
  it; reading outside \<open>[b_iter, e_iter)\<close> or outside the buffer is undefined behaviour and is
  a fatal outcome here.
\<close>

definition deref :: "'a Range \<Rightarrow> nat \<Rightarrow> 'a option" where
  "deref r p =
     (if b_iter r \<le> p \<and> p < e_iter r \<and> p < length (mem r) then Some (mem r ! p) else None)"


text \<open>\<^verbatim>\<open>Range(Iter start, size_t size)\<close>.\<close>

definition Range_sized :: "'a list \<Rightarrow> nat \<Rightarrow> nat \<Rightarrow> 'a Range" where
  "Range_sized m start sz = \<lparr>mem = m, b_iter = start, e_iter = start + sz\<rparr>"


text \<open>\<^verbatim>\<open>size()\<close>: \<^verbatim>\<open>assert(b_ <= e_); return e_ - b_;\<close>\<close>

definition size_Range :: "'a Range \<Rightarrow> nat option" where
  "size_Range r = (if b_iter r \<le> e_iter r then Some (e_iter r - b_iter r) else None)"

text \<open>\<^verbatim>\<open>operator[]\<close>: \<^verbatim>\<open>CHECK_GT(size(), i); return b_[i];\<close>\<close>

definition op_index :: "'a Range \<Rightarrow> nat \<Rightarrow> 'a option" where
  "op_index r i = do {
     sz \<leftarrow> size_Range r;
     if sz > i then deref r (b_iter r + i) else None
   }"


section \<open>The search \<^verbatim>\<open>qfind\<close>\<close>

text \<open>
  The inner \<^verbatim>\<open>while (!eq(i[nsize_1], lastNeedle)) { if (++i == iEnd) return npos; }\<close>.
  It leaves either through the \<^verbatim>\<open>return\<close> or with an \<open>i\<close> whose last slot matches.
\<close>

datatype scan_result = ReturnNpos | LastMatches nat

function scan_last ::
  "'a Range \<Rightarrow> ('a \<Rightarrow> 'a \<Rightarrow> bool) \<Rightarrow> nat \<Rightarrow> 'a \<Rightarrow> nat \<Rightarrow> nat \<Rightarrow> scan_result option"
where
  "scan_last haystack eq nsize_1 lastNeedle iEnd i = do {
     c \<leftarrow> deref haystack (i + nsize_1);
     if \<not> eq c lastNeedle
     then (if i + 1 = iEnd then Some ReturnNpos
           else scan_last haystack eq nsize_1 lastNeedle iEnd (i + 1))
     else Some (LastMatches i)
   }"
  by pat_completeness auto
termination
  by (relation "measure (\<lambda>(haystack, eq, nsize_1, lastNeedle, iEnd, i). e_iter haystack - i)")
     (auto simp: deref_def split: if_splits)

text \<open>
  The loop \<^verbatim>\<open>for (size_t j = 0; ; )\<close>: \<open>Some True\<close> when it reaches
  \<^verbatim>\<open>return i - haystack.begin()\<close>, \<open>Some False\<close> when it leaves through the
  mismatch branch.
\<close>

function pedestrian ::
  "'a Range \<Rightarrow> 'a Range \<Rightarrow> ('a \<Rightarrow> 'a \<Rightarrow> bool) \<Rightarrow> nat \<Rightarrow> nat \<Rightarrow> nat \<Rightarrow> bool option"
where
  "pedestrian haystack needle eq nsize i j =
     (if \<not> j < nsize then None
      else do {
        h \<leftarrow> deref haystack (i + j);
        n \<leftarrow> op_index needle j;
        if \<not> eq h n then Some False
        else if j + 1 = nsize then Some True
        else pedestrian haystack needle eq nsize i (j + 1)
      })"
  by pat_completeness auto
termination
  by (relation "measure (\<lambda>(haystack, needle, eq, nsize, i, j). nsize - j)") auto

text \<open>
  The loop that computes the skip:
  \<^verbatim>\<open>while (skip <= nsize_1 && !eq(needle[nsize_1 - skip], lastNeedle)) ++skip;\<close>
\<close>

function skip_loop ::
  "'a Range \<Rightarrow> ('a \<Rightarrow> 'a \<Rightarrow> bool) \<Rightarrow> nat \<Rightarrow> 'a \<Rightarrow> nat \<Rightarrow> nat option"
where
  "skip_loop needle eq nsize_1 lastNeedle skip =
     (if skip \<le> nsize_1
      then do {
        c \<leftarrow> op_index needle (nsize_1 - skip);
        if \<not> eq c lastNeedle then skip_loop needle eq nsize_1 lastNeedle (skip + 1)
        else Some skip
      }
      else Some skip)"
  by pat_completeness auto
termination
  by (relation "measure (\<lambda>(needle, eq, nsize_1, lastNeedle, skip). Suc nsize_1 - skip)") auto

text \<open>
  What one invocation does with the local \<^verbatim>\<open>skip\<close> is recorded in a log that the
  loop only appends to and never reads: \<open>Computed s\<close> for a run of the block under
  \<^verbatim>\<open>if (skip == 0)\<close> that left \<open>s\<close> in \<^verbatim>\<open>skip\<close>, \<open>Advanced s\<close> for an
  \<^verbatim>\<open>i += skip\<close> with the value \<open>s\<close>.
\<close>

datatype skip_event = Computed nat | Advanced nat

declare scan_last.simps [simp del] pedestrian.simps [simp del] skip_loop.simps [simp del]

lemma scan_last_ge:
  "scan_last haystack eq nsize_1 lastNeedle iEnd i = Some (LastMatches i') \<Longrightarrow> i \<le> i'"
proof (induction haystack eq nsize_1 lastNeedle iEnd i rule: scan_last.induct)
  case (1 haystack eq nsize_1 lastNeedle iEnd i)
  from "1.prems" show ?case
    by (subst (asm) scan_last.simps)
       (auto split: Option.bind_splits if_splits dest!: "1.IH")
qed

lemma skip_loop_ge:
  "skip_loop needle eq nsize_1 lastNeedle skip = Some s \<Longrightarrow> skip \<le> s"
proof (induction needle eq nsize_1 lastNeedle skip rule: skip_loop.induct)
  case (1 needle eq nsize_1 lastNeedle skip)
  from "1.prems" show ?case
    by (subst (asm) skip_loop.simps)
       (auto split: Option.bind_splits if_splits dest!: "1.IH")
qed

text \<open>
  The outer \<^verbatim>\<open>while (i < iEnd)\<close>, on the locals \<open>i\<close> and \<open>skip\<close>; the value is what
  \<^verbatim>\<open>qfind\<close> returns, and the log.
\<close>

function qfind_loop ::
  "'a Range \<Rightarrow> 'a Range \<Rightarrow> ('a \<Rightarrow> 'a \<Rightarrow> bool) \<Rightarrow> nat \<Rightarrow> 'a \<Rightarrow> nat \<Rightarrow>
   nat \<Rightarrow> nat \<Rightarrow> skip_event list \<Rightarrow> (nat \<times> skip_event list) option"
where
  "qfind_loop haystack needle eq nsize lastNeedle iEnd i skip log =
     (if i < iEnd
      then do {
        r \<leftarrow> scan_last haystack eq (nsize - 1) lastNeedle iEnd i;
        case r of
          ReturnNpos \<Rightarrow> Some (npos, log)
        | LastMatches i' \<Rightarrow> do {
            done \<leftarrow> pedestrian haystack needle eq nsize i' 0;
            if done then Some (i' - b_iter haystack, log)
            else if skip = 0
            then do {
              skip' \<leftarrow> skip_loop needle eq (nsize - 1) lastNeedle 1;
              qfind_loop haystack needle eq nsize lastNeedle iEnd (i' + skip') skip'
                (log @ [Computed skip', Advanced skip'])
            }
            else qfind_loop haystack needle eq nsize lastNeedle iEnd (i' + skip) skip
                   (log @ [Advanced skip])
          }
      }
      else Some (npos, log))"
  by pat_completeness auto
termination
  by (relation "measure (\<lambda>(haystack, needle, eq, nsize, lastNeedle, iEnd, i, skip, log). iEnd - i)")
     (auto dest!: scan_last_ge skip_loop_ge)

declare qfind_loop.simps [simp del]

text \<open>
  \<^verbatim>\<open>qfind(haystack, needle, eq)\<close> with its log, and the value it returns.
\<close>

definition qfind_log ::
  "'a Range \<Rightarrow> 'a Range \<Rightarrow> ('a \<Rightarrow> 'a \<Rightarrow> bool) \<Rightarrow> (nat \<times> skip_event list) option"
where
  "qfind_log haystack needle eq = do {
     nsize \<leftarrow> size_Range needle;
     hsize \<leftarrow> size_Range haystack;
     if hsize < nsize then Some (npos, [])
     else if nsize = 0 then Some (0, [])
     else do {
       lastNeedle \<leftarrow> op_index needle (nsize - 1);
       qfind_loop haystack needle eq nsize lastNeedle (e_iter haystack - (nsize - 1))
         (b_iter haystack) 0 []
     }
   }"

definition qfind :: "'a Range \<Rightarrow> 'a Range \<Rightarrow> ('a \<Rightarrow> 'a \<Rightarrow> bool) \<Rightarrow> nat option" where
  "qfind haystack needle eq = map_option fst (qfind_log haystack needle eq)"

text \<open>\<^verbatim>\<open>AsciiCaseSensitive::operator()\<close>, on \<^verbatim>\<open>char\<close>.\<close>

definition asciiCaseSensitive :: "char \<Rightarrow> char \<Rightarrow> bool" where
  "asciiCaseSensitive lhs rhs = (lhs = rhs)"

text \<open>
  \<^verbatim>\<open>qfind(haystack, needle)\<close> on two views, at the element type \<^verbatim>\<open>char\<close> on which
  the comparator it passes is declared; \<open>qfind_default_at\<close> below is the template at
  the other element types.
\<close>

definition qfind_default :: "char Range \<Rightarrow> char Range \<Rightarrow> nat option" where
  "qfind_default haystack needle = qfind haystack needle asciiCaseSensitive"

text \<open>
  \<^verbatim>\<open>AsciiCaseSensitive::operator()\<close> takes two \<^verbatim>\<open>char\<close>s, while the two-argument
  \<^verbatim>\<open>qfind\<close> is a template over every element type and passes
  \<^verbatim>\<open>asciiCaseSensitive\<close> whatever the type: at an element type other than
  \<^verbatim>\<open>char\<close>, every call \<^verbatim>\<open>eq(a, b)\<close> of the search converts both elements to
  \<^verbatim>\<open>char\<close> first. \<open>conv\<close> is that conversion; at \<^verbatim>\<open>char\<close> it is the identity.
\<close>

definition qfind_default_at :: "('a \<Rightarrow> char) \<Rightarrow> 'a Range \<Rightarrow> 'a Range \<Rightarrow> nat option" where
  "qfind_default_at conv haystack needle =
     qfind haystack needle (\<lambda>lhs rhs. asciiCaseSensitive (conv lhs) (conv rhs))"

text \<open>The conversion of an \<^verbatim>\<open>int\<close>, of 32 bits, to \<^verbatim>\<open>char\<close> keeps the low 8 bits.\<close>

definition int_to_char :: "32 word \<Rightarrow> char" where
  "int_to_char x = char_of (uint x)"



section \<open>Member functions of the view\<close>

text \<open>
  A \<^verbatim>\<open>const\<close> member function is a function of the view. The overload of
  \<^verbatim>\<open>at\<close> that is not \<^verbatim>\<open>const\<close> also gives the view as the call leaves it.
  \<open>Some (Inl x)\<close> is the exception \<open>x\<close> thrown, \<open>Some (Inr v)\<close> the value returned.
\<close>

definition at :: "'a Range \<Rightarrow> nat \<Rightarrow> ((exn + 'a) \<times> 'a Range) option" where
  "at r i = do {
     sz \<leftarrow> size_Range r;
     if i \<ge> sz then Some (Inl (out_of_range ''index out of range''), r)
     else do {
       v \<leftarrow> deref r (b_iter r + i);
       Some (Inr v, r)
     }
   }"

definition at_const :: "'a Range \<Rightarrow> nat \<Rightarrow> (exn + 'a) option" where
  "at_const r i = do {
     sz \<leftarrow> size_Range r;
     if i \<ge> sz then Some (Inl (out_of_range ''index out of range''))
     else do {
       v \<leftarrow> deref r (b_iter r + i);
       Some (Inr v)
     }
   }"

text \<open>
  \<^verbatim>\<open>subpiece(first, length)\<close>:
  \<^verbatim>\<open>CHECK_LE(first, size()); return Range(b_ + first, std::min(length, size() - first));\<close>
\<close>

definition subpiece :: "'a Range \<Rightarrow> nat \<Rightarrow> nat \<Rightarrow> 'a Range option" where
  "subpiece r first len = do {
     sz \<leftarrow> size_Range r;
     if first \<le> sz
     then do {
       sz' \<leftarrow> size_Range r;
       Some (Range_sized (mem r) (b_iter r + first) (min len (sz' - first)))
     }
     else None
   }"

text \<open>\<^verbatim>\<open>find(Range str)\<close> and \<^verbatim>\<open>find(Range str, size_t pos)\<close>; the sum is a \<^verbatim>\<open>size_t\<close>.\<close>

definition find_Range :: "char Range \<Rightarrow> char Range \<Rightarrow> nat option" where
  "find_Range r str = qfind_default r str"

text \<open>\<^verbatim>\<open>find(Range str)\<close> at an element type with the conversion \<open>conv\<close> to \<^verbatim>\<open>char\<close>.\<close>

definition find_Range_at :: "('a \<Rightarrow> char) \<Rightarrow> 'a Range \<Rightarrow> 'a Range \<Rightarrow> nat option" where
  "find_Range_at conv r str = qfind_default_at conv r str"


text \<open>
  \<^verbatim>\<open>hash()\<close>. The accumulator is a \<^verbatim>\<open>uint32_t\<close>. The element \<^verbatim>\<open>b_[ix]\<close> is a
  \<^verbatim>\<open>char\<close>, which the addition converts to \<^verbatim>\<open>uint32_t\<close> by way of \<^verbatim>\<open>int\<close>;
  \<^verbatim>\<open>char\<close> is signed on the platforms the header is written for, so the byte is
  sign-extended.
\<close>

definition char_to_uint32 :: "char \<Rightarrow> 32 word" where
  "char_to_uint32 c = scast (of_char c :: 8 word)"

function hash_loop :: "char Range \<Rightarrow> nat \<Rightarrow> 32 word \<Rightarrow> 32 word option" where
  "hash_loop r ix hash = do {
     sz \<leftarrow> size_Range r;
     if ix < sz
     then do {
       c \<leftarrow> deref r (b_iter r + ix);
       hash_loop r (ix + 1) ((push_bit 5 hash + hash) + char_to_uint32 c)
     }
     else Some hash
   }"
  by pat_completeness auto
termination
  by (relation "measure (\<lambda>(r, ix, hash). e_iter r - b_iter r - ix)")
     (auto simp: size_Range_def split: if_splits)

declare hash_loop.simps [simp del]

definition hash :: "char Range \<Rightarrow> 32 word option" where
  "hash r = hash_loop r 0 5381"

text \<open>
  The value of a plain \<^verbatim>\<open>char\<close>, which is signed on the platforms the header is
  written for: a byte from \<open>0x80\<close> on is negative.
\<close>

definition char_value :: "char \<Rightarrow> int" where
  "char_value c = sint (of_char c :: 8 word)"

text \<open>
  \<^verbatim>\<open>traits_type::compare(s1, s2, n)\<close>. \<^verbatim>\<open>traits_type\<close> is
  \<^verbatim>\<open>std::char_traits<value_type>\<close> and the \<^verbatim>\<open>value_type\<close> of a
  \<^verbatim>\<open>Range<const char*>\<close> is \<^verbatim>\<open>const char\<close>, so this is the primary template of the
  standard library, which the header calls and does not define: over the first \<open>n\<close>
  elements it returns \<open>-1\<close> at the first one that is \<^verbatim>\<open><\<close> its counterpart as a
  plain \<^verbatim>\<open>char\<close>, \<open>1\<close> at the first one whose counterpart is \<^verbatim>\<open><\<close> it, and 0 when
  there is none.
\<close>

function traits_compare :: "char Range \<Rightarrow> char Range \<Rightarrow> nat \<Rightarrow> nat \<Rightarrow> int option" where
  "traits_compare s1 s2 n k =
     (if k < n
      then do {
        c1 \<leftarrow> deref s1 (b_iter s1 + k);
        c2 \<leftarrow> deref s2 (b_iter s2 + k);
        if char_value c1 < char_value c2 then Some (- 1)
        else if char_value c2 < char_value c1 then Some 1
        else traits_compare s1 s2 n (k + 1)
      }
      else Some 0)"
  by pat_completeness auto
termination
  by (relation "measure (\<lambda>(s1, s2, n, k). n - k)") auto

declare traits_compare.simps [simp del]

text \<open>
  \<^verbatim>\<open>compare\<close>. \<^verbatim>\<open>tsize - osize\<close> is a \<^verbatim>\<open>size_t\<close> of 64 bits, and the assignment to
  \<^verbatim>\<open>int r\<close> keeps its low 32 bits, read as a signed value.
\<close>

definition size_t_to_int :: "64 word \<Rightarrow> int" where
  "size_t_to_int x = sint (ucast x :: 32 word)"

definition compare :: "char Range \<Rightarrow> char Range \<Rightarrow> int option" where
  "compare r o' = do {
     tsize \<leftarrow> size_Range r;
     osize \<leftarrow> size_Range o';
     r0 \<leftarrow> traits_compare r o' (min tsize osize) 0;
     Some (if r0 = 0 then size_t_to_int (word_of_nat tsize - word_of_nat osize) else r0)
   }"

text \<open>\<^verbatim>\<open>operator==\<close> and \<^verbatim>\<open>operator<\<close> on two views.\<close>

definition op_eq :: "char Range \<Rightarrow> char Range \<Rightarrow> bool option" where
  "op_eq lhs rhs = do {
     ls \<leftarrow> size_Range lhs;
     rs \<leftarrow> size_Range rhs;
     if ls = rs then do { c \<leftarrow> compare lhs rhs; Some (c = 0) } else Some False
   }"

definition op_less :: "char Range \<Rightarrow> char Range \<Rightarrow> bool option" where
  "op_less lhs rhs = do { c \<leftarrow> compare lhs rhs; Some (c < 0) }"

section \<open>What a view denotes\<close>

text \<open>
  A view is well formed when its iterators are ordered and lie in its buffer, and the
  buffer has fewer than \<open>2 ^ 64 - 1\<close> elements, as every buffer of a 64-bit address
  space has. Its elements are the buffer's from \<open>b_iter\<close> up to \<open>e_iter\<close>.
\<close>

definition valid :: "'a Range \<Rightarrow> bool" where
  "valid r \<longleftrightarrow> b_iter r \<le> e_iter r \<and> e_iter r \<le> length (mem r) \<and> length (mem r) < npos"

definition elems :: "'a Range \<Rightarrow> 'a list" where
  "elems r = take (e_iter r - b_iter r) (drop (b_iter r) (mem r))"

text \<open>The needle \<open>ns\<close> occurs in \<open>hs\<close> at offset \<open>k\<close>.\<close>

definition occurs_at :: "'a list \<Rightarrow> 'a list \<Rightarrow> nat \<Rightarrow> bool" where
  "occurs_at hs ns k \<longleftrightarrow> k + length ns \<le> length hs \<and> take (length ns) (drop k hs) = ns"


text \<open>
  Under a comparator \<open>eq\<close>, the needle matches the haystack at offset \<open>q\<close>; with
  equality for \<open>eq\<close> this is \<open>occurs_at\<close>.
\<close>

definition match_at :: "('a \<Rightarrow> 'a \<Rightarrow> bool) \<Rightarrow> 'a list \<Rightarrow> 'a list \<Rightarrow> nat \<Rightarrow> bool" where
  "match_at eq hs ns q \<longleftrightarrow>
     q + length ns \<le> length hs \<and> (\<forall>j < length ns. eq (hs ! (q + j)) (ns ! j))"

text \<open>
  What a search from offset \<open>p\<close> may return: \<open>npos\<close>, or an offset under \<open>npos\<close>
  where the needle matches; and no match lies between \<open>p\<close> and what it returned.
\<close>

definition found_from ::
  "('a \<Rightarrow> 'a \<Rightarrow> bool) \<Rightarrow> 'a list \<Rightarrow> 'a list \<Rightarrow> nat \<Rightarrow> nat \<Rightarrow> bool" where
  "found_from eq hs ns p r \<longleftrightarrow> r = npos \<or> (p \<le> r \<and> r < npos \<and> match_at eq hs ns r)"

definition leftmost_from ::
  "('a \<Rightarrow> 'a \<Rightarrow> bool) \<Rightarrow> 'a list \<Rightarrow> 'a list \<Rightarrow> nat \<Rightarrow> nat \<Rightarrow> bool" where
  "leftmost_from eq hs ns p r \<longleftrightarrow>
     (\<forall>q. p \<le> q \<and> (r = npos \<or> q < r) \<longrightarrow> \<not> match_at eq hs ns q)"

text \<open>
  The logs one invocation can leave: with \<open>skip\<close> at 0 on entry either nothing, or one
  computation followed by advances by the computed value only; with \<open>skip\<close> already
  set, advances by that value only.
\<close>

definition log_shape :: "nat \<Rightarrow> nat \<Rightarrow> skip_event list \<Rightarrow> bool" where
  "log_shape skip s t \<longleftrightarrow>
     (if skip = 0 then t = [] \<or> (\<exists>k. t = Computed s # replicate (Suc k) (Advanced s))
      else \<exists>k. t = replicate k (Advanced s))"

definition log_once :: "'a Range \<Rightarrow> ('a \<Rightarrow> 'a \<Rightarrow> bool) \<Rightarrow> skip_event list \<Rightarrow> bool" where
  "log_once needle eq t \<longleftrightarrow>
     t = [] \<or>
     (\<exists>s k. skip_loop needle eq (length (elems needle) - 1)
              (elems needle ! (length (elems needle) - 1)) 1 = Some s \<and>
            t = Computed s # replicate (Suc k) (Advanced s))"

text \<open>
  The skip as the specification words it: the distance from the needle's last position
  back to the nearest earlier position whose element equals the last element under the
  comparator, and the full needle length when the last element does not recur.
\<close>

definition skip_spec :: "('a \<Rightarrow> 'a \<Rightarrow> bool) \<Rightarrow> 'a list \<Rightarrow> nat" where
  "skip_spec eq ns =
     (case List.find (\<lambda>d. eq (ns ! (length ns - 1 - d)) (ns ! (length ns - 1))) [1..<length ns] of
        None \<Rightarrow> length ns
      | Some d \<Rightarrow> d)"

text \<open>
  The hash as the specification words it: from the seed 5381, \<open>hash = hash * 33 + element\<close>
  over the elements in order, in arithmetic modulo \<open>2 ^ 32\<close>; the element enters with
  the value its \<^verbatim>\<open>char\<close> has.
\<close>

definition hash_spec :: "char list \<Rightarrow> 32 word" where
  "hash_spec es = foldl (\<lambda>hash element. hash * 33 + char_to_uint32 element) 5381 es"

section \<open>Reading a well-formed view\<close>

lemma length_elems: "valid r \<Longrightarrow> length (elems r) = e_iter r - b_iter r"
  by (auto simp: valid_def elems_def)

lemma size_Range_valid: "valid r \<Longrightarrow> size_Range r = Some (length (elems r))"
  by (simp add: length_elems) (simp add: valid_def size_Range_def)

lemma deref_valid:
  "valid r \<Longrightarrow> k < length (elems r) \<Longrightarrow> deref r (b_iter r + k) = Some (elems r ! k)"
  by (simp add: length_elems) (auto simp: valid_def deref_def elems_def)

lemma op_index_valid:
  "valid r \<Longrightarrow> k < length (elems r) \<Longrightarrow> op_index r k = Some (elems r ! k)"
  by (simp add: op_index_def size_Range_valid deref_valid)

section \<open>Checked access, slicing and hashing\<close>

text \<open>
  C7. On a well-formed view, \<^verbatim>\<open>at(i)\<close> throws \<^verbatim>\<open>std::out_of_range\<close> exactly when
  \<open>i\<close> is at least the size, and returns the element at index \<open>i\<close> otherwise; either
  way the call leaves the view as it found it, and the \<^verbatim>\<open>const\<close> overload gives the
  same outcome.
\<close>

theorem at_checked:
  "valid r \<Longrightarrow>
   (at r i = Some (Inl (out_of_range ''index out of range''), r) \<longleftrightarrow> length (elems r) \<le> i) \<and>
   (i < length (elems r) \<longrightarrow> at r i = Some (Inr (elems r ! i), r)) \<and>
   at_const r i = map_option fst (at r i) \<and> map_option snd (at r i) = Some r \<and>
   size_Range r = Some (length (elems r))"
  by (auto simp: at_def at_const_def size_Range_valid deref_valid)

theorem at_checked_witness:
  "valid \<lparr>mem = ''xabcy'', b_iter = 1, e_iter = 4\<rparr> \<and>
   at \<lparr>mem = ''xabcy'', b_iter = 1, e_iter = 4\<rparr> 1 =
     Some (Inr (CHR ''b''), \<lparr>mem = ''xabcy'', b_iter = 1, e_iter = 4\<rparr>) \<and>
   at \<lparr>mem = ''xabcy'', b_iter = 1, e_iter = 4\<rparr> 3 =
     Some (Inl (out_of_range ''index out of range''), \<lparr>mem = ''xabcy'', b_iter = 1, e_iter = 4\<rparr>)"
proof -
  let ?r = "\<lparr>mem = ''xabcy'', b_iter = 1, e_iter = 4\<rparr> :: char Range"
  have v: "valid ?r" by (simp add: valid_def npos_def)
  from at_checked [OF v, of 1] at_checked [OF v, of 3] v show ?thesis
    by (simp add: elems_def)
qed

lemma subpiece_sub:
  "valid r \<Longrightarrow> first \<le> length (elems r) \<Longrightarrow>
   (\<exists>s. subpiece r first len = Some s \<and> valid s \<and> mem s = mem r \<and>
        size_Range s = Some (min len (length (elems r) - first)) \<and>
        elems s = take len (drop first (elems r)) \<and>
        (\<forall>j < min len (length (elems r) - first). op_index s j = op_index r (first + j)))"
proof -
  assume v: "valid r" and f: "first \<le> length (elems r)"
  let ?n = "min len (length (elems r) - first)"
  let ?s = "Range_sized (mem r) (b_iter r + first) ?n"
  have sp: "subpiece r first len = Some ?s"
    using v f by (simp add: subpiece_def size_Range_valid)
  have vs: "valid ?s"
    using v f by (auto simp: valid_def Range_sized_def length_elems)
  have es: "elems ?s = take len (drop first (elems r))"
    using v f
    by (auto simp: elems_def Range_sized_def valid_def take_drop min_def add.commute)
  have ls: "length (elems ?s) = ?n"
    by (simp add: es)
  have ix: "op_index ?s j = op_index r (first + j)" if "j < ?n" for j
  proof -
    from that have lt: "first + j < length (elems r)" by arith
    have "op_index r (first + j) = Some (elems r ! (first + j))"
      using v lt by (simp add: op_index_valid)
    moreover have "op_index ?s j = Some (elems ?s ! j)"
      using vs that ls by (simp add: op_index_valid)
    moreover have "elems ?s ! j = elems r ! (first + j)"
      using that lt f by (simp add: es)
    ultimately show ?thesis by simp
  qed
  have "size_Range ?s = Some ?n"
    using vs ls by (simp add: size_Range_valid)
  moreover have "mem ?s = mem r" by (simp add: Range_sized_def)
  ultimately show ?thesis using sp vs es ix by blast
qed

text \<open>
  C8. On a well-formed view with \<open>first\<close> at most its size, \<^verbatim>\<open>subpiece(first, length)\<close>
  returns a view of the same buffer whose size is the smaller of \<open>length\<close> and the size
  less \<open>first\<close>, and whose element at each index \<open>j\<close> is the element of the original at
  \<open>first + j\<close>. The function is \<^verbatim>\<open>const\<close>: the original is an argument, not a state.
\<close>

theorem subpiece_slice:
  "valid r \<Longrightarrow> first \<le> length (elems r) \<Longrightarrow>
   (\<exists>s. subpiece r first len = Some s \<and> valid s \<and> mem s = mem r \<and>
        size_Range s = Some (min len (length (elems r) - first)) \<and>
        elems s = take len (drop first (elems r)) \<and>
        (\<forall>j < min len (length (elems r) - first). op_index s j = op_index r (first + j)))"
  by (rule subpiece_sub)

theorem subpiece_slice_witness:
  "valid \<lparr>mem = ''xxabcdy'', b_iter = 2, e_iter = 6\<rparr> \<and> (1::nat) \<le> length ''abcd'' \<and>
   (\<exists>s. subpiece \<lparr>mem = ''xxabcdy'', b_iter = 2, e_iter = 6\<rparr> 1 2 = Some s \<and>
        size_Range s = Some 2 \<and> elems s = ''bc'' \<and>
        op_index s 0 = op_index \<lparr>mem = ''xxabcdy'', b_iter = 2, e_iter = 6\<rparr> 1 \<and>
        op_index s 1 = op_index \<lparr>mem = ''xxabcdy'', b_iter = 2, e_iter = 6\<rparr> 2)"
proof -
  let ?r = "\<lparr>mem = ''xxabcdy'', b_iter = 2, e_iter = 6\<rparr> :: char Range"
  have v: "valid ?r" by (simp add: valid_def npos_def)
  have l: "length (elems ?r) = 4" by (simp add: elems_def)
  have f: "1 \<le> length (elems ?r)" by (simp add: l)
  from subpiece_slice [OF v f, of 2] obtain s where
    s: "subpiece ?r 1 2 = Some s" "size_Range s = Some (min 2 (length (elems ?r) - 1))"
      "elems s = take 2 (drop 1 (elems ?r))"
      "\<forall>j < min 2 (length (elems ?r) - 1). op_index s j = op_index ?r (1 + j)"
    by blast
  have "(0::nat) < min 2 (length (elems ?r) - 1)" "(1::nat) < min 2 (length (elems ?r) - 1)"
    unfolding l by simp_all
  with s(4) have "op_index s 0 = op_index ?r (1 + 0)" "op_index s 1 = op_index ?r (1 + 1)"
    by blast+
  then have "op_index s 0 = op_index ?r 1" "op_index s 1 = op_index ?r 2"
    by (simp_all only: add_0_right one_add_one)
  moreover from s(2) have "size_Range s = Some 2" by (simp add: l)
  moreover from s(3) have "elems s = ''bc''" by (simp add: elems_def)
  ultimately show ?thesis using v s(1) by simp
qed

lemma hash_loop_foldl:
  "valid r \<Longrightarrow> ix \<le> length (elems r) \<Longrightarrow>
   hash_loop r ix h =
     Some (foldl (\<lambda>hash element. hash * 33 + char_to_uint32 element) h (drop ix (elems r)))"
proof (induction "length (elems r) - ix" arbitrary: ix h)
  case 0
  then show ?case
    by (subst hash_loop.simps) (simp add: size_Range_valid)
next
  case (Suc n)
  then have lt: "ix < length (elems r)" by simp
  have step: "push_bit 5 h + h = h * 33" for h :: "32 word"
    by (simp add: push_bit_eq_mult)
  have IH: "hash_loop r (Suc ix) h' =
    Some (foldl (\<lambda>hash element. hash * 33 + char_to_uint32 element) h' (drop (Suc ix) (elems r)))"
    for h'
    using Suc.hyps(1) [of "Suc ix" h'] Suc.hyps(2) Suc.prems lt by simp
  have d: "drop ix (elems r) = elems r ! ix # drop (Suc ix) (elems r)"
    using lt by (simp add: Cons_nth_drop_Suc)
  show ?case
    by (subst hash_loop.simps) (simp add: size_Range_valid Suc.prems lt deref_valid IH step d)
qed

text \<open>
  C9. On a well-formed character view, \<^verbatim>\<open>hash()\<close> is the rolling hash of the
  specification over the view's elements, so that two views with the same elements,
  wherever they lie, have the same hash.
\<close>

theorem hash_is_rolling_hash:
  "valid r \<Longrightarrow>
   hash r = Some (hash_spec (elems r)) \<and>
   (\<forall>r'. valid r' \<and> elems r' = elems r \<longrightarrow> hash r' = hash r)"
  by (simp add: hash_def hash_spec_def hash_loop_foldl)

theorem hash_is_rolling_hash_witness:
  "valid \<lparr>mem = ''xaby'', b_iter = 1, e_iter = 3\<rparr> \<and>
   hash \<lparr>mem = ''xaby'', b_iter = 1, e_iter = 3\<rparr> = Some 5863208 \<and>
   hash \<lparr>mem = ''ab'', b_iter = 0, e_iter = 2\<rparr> = Some 5863208"
proof -
  let ?r = "\<lparr>mem = ''xaby'', b_iter = 1, e_iter = 3\<rparr> :: char Range"
  let ?r' = "\<lparr>mem = ''ab'', b_iter = 0, e_iter = 2\<rparr> :: char Range"
  have v: "valid ?r" by (simp add: valid_def npos_def)
  have v': "valid ?r'" by (simp add: valid_def npos_def)
  have e: "elems ?r = ''ab''" "elems ?r' = ''ab''" by (simp_all add: elems_def)
  have hs: "hash_spec ''ab'' = 5863208" by (simp add: hash_spec_def char_to_uint32_def)
  from hash_is_rolling_hash [OF v] v' e hs show ?thesis using v by auto
qed

section \<open>The search on an empty needle\<close>

text \<open>
  C3. Whenever the sizes of both views can be taken, and the needle's is 0, \<^verbatim>\<open>qfind\<close>
  returns 0, whatever the haystack (the empty one too) and whatever the comparator.
\<close>

theorem qfind_empty_needle:
  "size_Range haystack \<noteq> None \<Longrightarrow> size_Range needle = Some 0 \<Longrightarrow>
   qfind haystack needle eq = Some 0"
  by (auto simp: qfind_def qfind_log_def)

theorem qfind_empty_needle_witness:
  "size_Range \<lparr>mem = '''', b_iter = 0, e_iter = 0\<rparr> \<noteq> None \<and>
   size_Range \<lparr>mem = ''ab'', b_iter = 1, e_iter = 1\<rparr> = Some 0 \<and>
   qfind \<lparr>mem = '''', b_iter = 0, e_iter = 0\<rparr> \<lparr>mem = ''ab'', b_iter = 1, e_iter = 1\<rparr> (=) = Some 0"
proof -
  have h: "size_Range \<lparr>mem = '''', b_iter = 0, e_iter = 0\<rparr> \<noteq> None"
    by (simp add: size_Range_def)
  have n: "size_Range \<lparr>mem = ''ab'', b_iter = 1, e_iter = 1\<rparr> = Some 0"
    by (simp add: size_Range_def)
  from qfind_empty_needle [OF h n, of "(=)"] h n show ?thesis by simp
qed


section \<open>The loops of the search\<close>

lemma occurs_at_match_at: "occurs_at hs ns q \<longleftrightarrow> match_at (=) hs ns q"
  by (auto simp: occurs_at_def match_at_def list_eq_iff_nth_eq)

lemma e_iter_valid: "valid r \<Longrightarrow> e_iter r = b_iter r + length (elems r)"
  by (simp add: length_elems) (simp add: valid_def)

lemma scan_last_spec:
  assumes v: "valid haystack"
    and iEnd: "iEnd = b_iter haystack + (length (elems haystack) - nsize_1)"
    and p: "p + nsize_1 < length (elems haystack)"
  shows "(scan_last haystack eq nsize_1 lastNeedle iEnd (b_iter haystack + p) = Some ReturnNpos \<and>
          (\<forall>q. p \<le> q \<and> q + nsize_1 < length (elems haystack) \<longrightarrow>
               \<not> eq (elems haystack ! (q + nsize_1)) lastNeedle)) \<or>
         (\<exists>q. scan_last haystack eq nsize_1 lastNeedle iEnd (b_iter haystack + p) =
                 Some (LastMatches (b_iter haystack + q)) \<and>
              p \<le> q \<and> q + nsize_1 < length (elems haystack) \<and>
              eq (elems haystack ! (q + nsize_1)) lastNeedle \<and>
              (\<forall>q'. p \<le> q' \<and> q' < q \<longrightarrow> \<not> eq (elems haystack ! (q' + nsize_1)) lastNeedle))"
  using p
proof (induction "length (elems haystack) - nsize_1 - p" arbitrary: p rule: less_induct)
  case less
  let ?hs = "elems haystack"
  have rd: "deref haystack (b_iter haystack + p + nsize_1) = Some (?hs ! (p + nsize_1))"
    using deref_valid [OF v less.prems] by (simp add: add.assoc)
  show ?case
  proof (cases "eq (?hs ! (p + nsize_1)) lastNeedle")
    case True
    then have "scan_last haystack eq nsize_1 lastNeedle iEnd (b_iter haystack + p) =
        Some (LastMatches (b_iter haystack + p))"
      by (subst scan_last.simps) (simp add: rd)
    with True less.prems show ?thesis by auto
  next
    case False
    show ?thesis
    proof (cases "Suc p + nsize_1 < length ?hs")
      case True
      then have ne: "b_iter haystack + p + 1 \<noteq> iEnd" using iEnd by simp
      have eq1: "scan_last haystack eq nsize_1 lastNeedle iEnd (b_iter haystack + p) =
          scan_last haystack eq nsize_1 lastNeedle iEnd (b_iter haystack + Suc p)"
        using False ne by (subst scan_last.simps) (simp add: rd)
      have step: "q = p \<or> Suc p \<le> q" if "p \<le> q" for q using that by arith
      from less.hyps [of "Suc p"] True less.prems
      consider (a) "scan_last haystack eq nsize_1 lastNeedle iEnd (b_iter haystack + Suc p) = Some ReturnNpos"
          "\<forall>q. Suc p \<le> q \<and> q + nsize_1 < length ?hs \<longrightarrow> \<not> eq (?hs ! (q + nsize_1)) lastNeedle"
        | (b) q where "scan_last haystack eq nsize_1 lastNeedle iEnd (b_iter haystack + Suc p) =
                 Some (LastMatches (b_iter haystack + q))"
              "Suc p \<le> q" "q + nsize_1 < length ?hs" "eq (?hs ! (q + nsize_1)) lastNeedle"
              "\<forall>q'. Suc p \<le> q' \<and> q' < q \<longrightarrow> \<not> eq (?hs ! (q' + nsize_1)) lastNeedle"
        by (metis (no_types, lifting) diff_less_mono2 lessI less_diff_conv)
      then show ?thesis
      proof cases
        case a
        have "\<forall>q. p \<le> q \<and> q + nsize_1 < length ?hs \<longrightarrow> \<not> eq (?hs ! (q + nsize_1)) lastNeedle"
          using a(2) False step by blast
        with a(1) eq1 show ?thesis by simp
      next
        case b
        have "\<forall>q'. p \<le> q' \<and> q' < q \<longrightarrow> \<not> eq (?hs ! (q' + nsize_1)) lastNeedle"
          using b(5) False step by blast
        with b eq1 show ?thesis by (intro disjI2 exI [of _ q]) simp
      qed
    next
      case F2: False
      then have e: "b_iter haystack + p + 1 = iEnd" using iEnd less.prems by simp
      have "scan_last haystack eq nsize_1 lastNeedle iEnd (b_iter haystack + p) = Some ReturnNpos"
        using False e by (subst scan_last.simps) (simp add: rd)
      moreover have "q = p" if "p \<le> q" "q + nsize_1 < length ?hs" for q
        using that F2 by arith
      ultimately show ?thesis using False by blast
    qed
  qed
qed

lemma pedestrian_spec:
  assumes vh: "valid haystack" and vn: "valid needle"
    and n: "nsize = length (elems needle)"
    and p: "p + nsize \<le> length (elems haystack)"
    and j: "j < nsize"
  shows "pedestrian haystack needle eq nsize (b_iter haystack + p) j =
         Some (\<forall>j'. j \<le> j' \<and> j' < nsize \<longrightarrow> eq (elems haystack ! (p + j')) (elems needle ! j'))"
  using j
proof (induction "nsize - j" arbitrary: j rule: less_induct)
  case less
  have rd: "deref haystack (b_iter haystack + p + j) = Some (elems haystack ! (p + j))"
    using deref_valid [OF vh, of "p + j"] p less.prems by (simp add: add.assoc)
  have rn: "op_index needle j = Some (elems needle ! j)"
    using op_index_valid [OF vn] less.prems n by simp
  have step: "j' = j \<or> Suc j \<le> j'" if "j \<le> j'" for j' using that by arith
  show ?case
  proof (cases "eq (elems haystack ! (p + j)) (elems needle ! j)")
    case False
    then have "pedestrian haystack needle eq nsize (b_iter haystack + p) j = Some False"
      using less.prems by (subst pedestrian.simps) (simp add: rd rn)
    moreover have "\<not> (\<forall>j'. j \<le> j' \<and> j' < nsize \<longrightarrow>
        eq (elems haystack ! (p + j')) (elems needle ! j'))"
      using False less.prems by blast
    ultimately show ?thesis by simp
  next
    case True
    show ?thesis
    proof (cases "j + 1 = nsize")
      case T2: True
      then have "pedestrian haystack needle eq nsize (b_iter haystack + p) j = Some True"
        using True less.prems by (subst pedestrian.simps) (simp add: rd rn)
      moreover have "j' = j" if "j \<le> j'" "j' < nsize" for j' using that T2 by arith
      ultimately show ?thesis using True by auto
    next
      case False
      then have lt: "Suc j < nsize" using less.prems by arith
      have "pedestrian haystack needle eq nsize (b_iter haystack + p) j =
          pedestrian haystack needle eq nsize (b_iter haystack + p) (Suc j)"
        using True False less.prems by (subst pedestrian.simps) (simp add: rd rn)
      also have "\<dots> = Some (\<forall>j'. Suc j \<le> j' \<and> j' < nsize \<longrightarrow>
          eq (elems haystack ! (p + j')) (elems needle ! j'))"
        using less.hyps [of "Suc j"] lt less.prems by simp
      also have "(\<forall>j'. Suc j \<le> j' \<and> j' < nsize \<longrightarrow>
          eq (elems haystack ! (p + j')) (elems needle ! j')) \<longleftrightarrow>
        (\<forall>j'. j \<le> j' \<and> j' < nsize \<longrightarrow> eq (elems haystack ! (p + j')) (elems needle ! j'))"
        using True step by (metis Suc_leD)
      finally show ?thesis .
    qed
  qed
qed

lemma skip_loop_spec:
  assumes vn: "valid needle" and n: "nsize_1 < length (elems needle)"
    and k: "k \<le> Suc nsize_1"
  shows "\<exists>s. skip_loop needle eq nsize_1 lastNeedle k = Some s \<and> k \<le> s \<and> s \<le> Suc nsize_1 \<and>
             (\<forall>d. k \<le> d \<and> d < s \<longrightarrow> \<not> eq (elems needle ! (nsize_1 - d)) lastNeedle) \<and>
             (s \<le> nsize_1 \<longrightarrow> eq (elems needle ! (nsize_1 - s)) lastNeedle)"
  using k
proof (induction "Suc nsize_1 - k" arbitrary: k rule: less_induct)
  case less
  show ?case
  proof (cases "k \<le> nsize_1")
    case False
    then have "skip_loop needle eq nsize_1 lastNeedle k = Some k"
      by (subst skip_loop.simps) simp
    with False less.prems show ?thesis by auto
  next
    case True
    have rn: "op_index needle (nsize_1 - k) = Some (elems needle ! (nsize_1 - k))"
      using op_index_valid [OF vn] n by simp
    show ?thesis
    proof (cases "eq (elems needle ! (nsize_1 - k)) lastNeedle")
      case T2: True
      then have "skip_loop needle eq nsize_1 lastNeedle k = Some k"
        using True by (subst skip_loop.simps) (simp add: rn)
      with T2 less.prems show ?thesis by auto
    next
      case False
      have eq1: "skip_loop needle eq nsize_1 lastNeedle k =
          skip_loop needle eq nsize_1 lastNeedle (Suc k)"
        using True False by (subst skip_loop.simps) (simp add: rn)
      have m: "Suc nsize_1 - Suc k < Suc nsize_1 - k" and k': "Suc k \<le> Suc nsize_1"
        using True by arith+
      from less.hyps [OF m k'] obtain s where
        s: "skip_loop needle eq nsize_1 lastNeedle (Suc k) = Some s" "Suc k \<le> s"
          "s \<le> Suc nsize_1"
          "\<forall>d. Suc k \<le> d \<and> d < s \<longrightarrow> \<not> eq (elems needle ! (nsize_1 - d)) lastNeedle"
          "s \<le> nsize_1 \<longrightarrow> eq (elems needle ! (nsize_1 - s)) lastNeedle"
        by blast
      have step: "d = k \<or> Suc k \<le> d" if "k \<le> d" for d using that by arith
      have "\<forall>d. k \<le> d \<and> d < s \<longrightarrow> \<not> eq (elems needle ! (nsize_1 - d)) lastNeedle"
        using s(4) False step by blast
      with s eq1 show ?thesis by auto
    qed
  qed
qed

lemma match_at_last:
  "match_at eq hs ns q \<Longrightarrow> nsize = length ns \<Longrightarrow> 1 \<le> nsize \<Longrightarrow>
   eq (hs ! (q + (nsize - 1))) (ns ! (nsize - 1))"
proof -
  assume m: "match_at eq hs ns q" and "nsize = length ns" "1 \<le> nsize"
  then have "nsize - 1 < length ns" by arith
  with m show ?thesis unfolding match_at_def by blast
qed

lemma no_match_in_skip:
  assumes last: "hs ! (q + (length ns - 1)) = ns ! (length ns - 1)"
    and min: "\<forall>d. 1 \<le> d \<and> d < s \<longrightarrow> ns ! (length ns - 1 - d) \<noteq> ns ! (length ns - 1)"
    and s: "s \<le> length ns"
    and q': "q < q'" "q' < q + s"
  shows "\<not> match_at (=) hs ns q'"
proof
  assume m: "match_at (=) hs ns q'"
  define d where "d = q' - q"
  define j where "j = length ns - 1 - d"
  have d: "1 \<le> d" "d < s" using q' by (simp_all add: d_def)
  then have j: "j < length ns" using s by (simp add: j_def)
  from m j have "hs ! (q' + j) = ns ! j"
    by (simp add: match_at_def)
  moreover have "q' + j = q + (length ns - 1)"
    using d s q' unfolding j_def d_def by arith
  ultimately have "ns ! j = ns ! (length ns - 1)"
    using last by (simp only:)
  then have "ns ! (length ns - 1 - d) = ns ! (length ns - 1)"
    by (simp only: j_def)
  with min d show False by blast
qed

lemma qfind_loop_spec_raw:
  assumes vh: "valid haystack" and vn: "valid needle"
    and n: "nsize = length (elems needle)" and n1: "1 \<le> nsize"
    and nh: "nsize \<le> length (elems haystack)"
    and iEnd: "iEnd = b_iter haystack + (length (elems haystack) - (nsize - 1))"
    and last: "lastNeedle = elems needle ! (nsize - 1)"
    and sk: "skip_loop needle eq (nsize - 1) lastNeedle 1 = Some s"
    and skip: "skip = 0 \<or> skip = s"
  shows "\<exists>r t. qfind_loop haystack needle eq nsize lastNeedle iEnd (b_iter haystack + p) skip log =
               Some (r, log @ t) \<and> log_shape skip s t \<and>
             (r = npos \<or> (p \<le> r \<and> r < npos \<and> match_at eq (elems haystack) (elems needle) r)) \<and>
             (eq = (=) \<longrightarrow>
                (\<forall>q. p \<le> q \<and> (r = npos \<or> q < r) \<longrightarrow>
                     \<not> match_at eq (elems haystack) (elems needle) q))"
  using skip
proof (induction "length (elems haystack) - (nsize - 1) - p" arbitrary: p skip log rule: less_induct)
  case less
  let ?hs = "elems haystack" and ?ns = "elems needle"
  let ?L = "length ?hs - (nsize - 1)"
  have lenh: "length ?hs \<le> npos"
    using vh length_elems [OF vh] unfolding valid_def by arith
  have nl: "nsize - 1 < length ?ns" using n n1 by arith
  have k1: "1 \<le> Suc (nsize - 1)" by simp
  from skip_loop_spec [OF vn nl k1, of eq lastNeedle] sk
  have s0: "1 \<le> s" "s \<le> Suc (nsize - 1)"
    "\<forall>d. 1 \<le> d \<and> d < s \<longrightarrow> \<not> eq (?ns ! (nsize - 1 - d)) lastNeedle"
    by auto
  have s: "1 \<le> s" "s \<le> nsize"
    "\<forall>d. 1 \<le> d \<and> d < s \<longrightarrow> \<not> eq (?ns ! (nsize - 1 - d)) lastNeedle"
    using s0 n1 by (arith, arith, blast)
  show ?case
  proof (cases "p < ?L")
    case False
    then have "qfind_loop haystack needle eq nsize lastNeedle iEnd (b_iter haystack + p) skip log =
        Some (npos, log @ [])"
      using iEnd by (subst qfind_loop.simps) simp
    moreover have "log_shape skip s []"
      using less.prems by (auto simp: log_shape_def)
    moreover have "\<not> match_at eq ?hs ?ns q" if "p \<le> q" for q
      using that False n n1 by (auto simp: match_at_def)
    ultimately show ?thesis by blast
  next
    case True
    then have lt: "b_iter haystack + p < iEnd" and p1: "p + (nsize - 1) < length ?hs"
      using iEnd by arith+
    have nomatch: "\<not> match_at eq ?hs ?ns q" if "\<not> eq (?hs ! (q + (nsize - 1))) lastNeedle" for q
      using that match_at_last [OF _ n n1, of eq ?hs q] last by blast
    from scan_last_spec [OF vh iEnd p1, of eq lastNeedle]
    show ?thesis
    proof (elim disjE conjE exE)
      assume sc: "scan_last haystack eq (nsize - 1) lastNeedle iEnd (b_iter haystack + p) =
          Some ReturnNpos"
        and no: "\<forall>q. p \<le> q \<and> q + (nsize - 1) < length ?hs \<longrightarrow>
          \<not> eq (?hs ! (q + (nsize - 1))) lastNeedle"
      have "qfind_loop haystack needle eq nsize lastNeedle iEnd (b_iter haystack + p) skip log =
          Some (npos, log @ [])"
        using lt sc by (subst qfind_loop.simps) simp
      moreover have "log_shape skip s []"
        using less.prems by (auto simp: log_shape_def)
      moreover have "\<not> match_at eq ?hs ?ns q" if "p \<le> q" for q
      proof (cases "q + (nsize - 1) < length ?hs")
        case True
        with no that nomatch show ?thesis by blast
      next
        case False
        then show ?thesis using n n1 by (auto simp: match_at_def)
      qed
      ultimately show ?thesis by blast
    next
      fix q
      assume sc: "scan_last haystack eq (nsize - 1) lastNeedle iEnd (b_iter haystack + p) =
          Some (LastMatches (b_iter haystack + q))"
        and pq: "p \<le> q" and q1: "q + (nsize - 1) < length ?hs"
        and ql: "eq (?hs ! (q + (nsize - 1))) lastNeedle"
        and no: "\<forall>q'. p \<le> q' \<and> q' < q \<longrightarrow> \<not> eq (?hs ! (q' + (nsize - 1))) lastNeedle"
      have before: "\<not> match_at eq ?hs ?ns q'" if "p \<le> q'" "q' < q" for q'
        using that no nomatch by blast
      have qn: "q + nsize \<le> length ?hs" using q1 n1 by arith
      have j0: "0 < nsize" using n1 by arith
      have "(\<forall>j'. 0 \<le> j' \<and> j' < nsize \<longrightarrow> eq (?hs ! (q + j')) (?ns ! j')) \<longleftrightarrow>
          match_at eq ?hs ?ns q"
        unfolding match_at_def using qn n by blast
      with pedestrian_spec [OF vh vn n qn j0, of eq]
      have ped: "pedestrian haystack needle eq nsize (b_iter haystack + q) 0 =
          Some (match_at eq ?hs ?ns q)"
        by (simp only:)
      show ?thesis
      proof (cases "match_at eq ?hs ?ns q")
        case True
        have "qfind_loop haystack needle eq nsize lastNeedle iEnd (b_iter haystack + p) skip log =
            Some (q, log @ [])"
          using lt sc ped True by (subst qfind_loop.simps) simp
        moreover have "log_shape skip s []"
          using less.prems by (auto simp: log_shape_def)
        moreover have "q < npos" using qn n1 lenh by arith
        ultimately show ?thesis using True pq before by blast
      next
        case False
        let ?log' = "if skip = 0 then log @ [Computed s, Advanced s] else log @ [Advanced s]"
        have unf: "qfind_loop haystack needle eq nsize lastNeedle iEnd (b_iter haystack + p) skip log =
            qfind_loop haystack needle eq nsize lastNeedle iEnd (b_iter haystack + (q + s)) s ?log'"
          using lt sc ped False sk less.prems
          by (subst qfind_loop.simps) (auto simp: add.assoc)
        have meas: "?L - (q + s) < ?L - p" using True pq s(1) by arith
        from less.hyps [OF meas, of s ?log'] obtain r t where
          r: "qfind_loop haystack needle eq nsize lastNeedle iEnd (b_iter haystack + (q + s)) s ?log' =
               Some (r, ?log' @ t)" "log_shape s s t"
            "r = npos \<or> (q + s \<le> r \<and> r < npos \<and> match_at eq ?hs ?ns r)"
            "eq = (=) \<longrightarrow> (\<forall>q'. q + s \<le> q' \<and> (r = npos \<or> q' < r) \<longrightarrow>
                \<not> match_at eq ?hs ?ns q')"
          by blast
        from r(2) s(1) obtain k where t: "t = replicate k (Advanced s)"
          by (auto simp: log_shape_def)
        let ?t = "if skip = 0 then Computed s # replicate (Suc k) (Advanced s)
                  else replicate (Suc k) (Advanced s)"
        have l1: "?log' @ t = log @ ?t" by (simp add: t)
        have "\<exists>k'. replicate (Suc k) (Advanced s) = replicate k' (Advanced s)"
          by (rule exI)  (rule refl)
        then have l2: "log_shape skip s ?t"
          using less.prems s(1) unfolding log_shape_def by auto
        have l3: "r = npos \<or> (p \<le> r \<and> r < npos \<and> match_at eq ?hs ?ns r)"
          using r(3) pq by auto
        have l4: "\<not> match_at eq ?hs ?ns q'" if e: "eq = (=)" and q': "p \<le> q'" "r = npos \<or> q' < r" for q'
        proof -
          consider "q' < q" | "q' = q" | "q < q'" "q' < q + s" | "q + s \<le> q'" by arith
          then show ?thesis
          proof cases
            case 1 with before q' show ?thesis by blast
          next
            case 2 with False show ?thesis by simp
          next
            case 3
            have "\<not> match_at (=) ?hs ?ns q'"
            proof (rule no_match_in_skip [OF _ _ _ 3])
              show "?hs ! (q + (length ?ns - 1)) = ?ns ! (length ?ns - 1)"
                using ql e last n by simp
              show "\<forall>d. 1 \<le> d \<and> d < s \<longrightarrow> ?ns ! (length ?ns - 1 - d) \<noteq> ?ns ! (length ?ns - 1)"
                using s(3) e last n by simp
              show "s \<le> length ?ns" using s(2) n by simp
            qed
            with e show ?thesis by simp
          next
            case 4 with r(4) e q' show ?thesis by blast
          qed
        qed
        from unf r(1) l1 have "qfind_loop haystack needle eq nsize lastNeedle iEnd
            (b_iter haystack + p) skip log = Some (r, log @ ?t)"
          by simp
        with l2 l3 l4 show ?thesis by blast
      qed
    qed
  qed
qed


lemma qfind_loop_spec:
  assumes "valid haystack" "valid needle"
    and "nsize = length (elems needle)" "1 \<le> nsize"
    and "nsize \<le> length (elems haystack)"
    and "iEnd = b_iter haystack + (length (elems haystack) - (nsize - 1))"
    and "lastNeedle = elems needle ! (nsize - 1)"
    and "skip_loop needle eq (nsize - 1) lastNeedle 1 = Some s"
    and "skip = 0 \<or> skip = s"
  shows "\<exists>r t. qfind_loop haystack needle eq nsize lastNeedle iEnd (b_iter haystack + p) skip log =
               Some (r, log @ t) \<and> log_shape skip s t \<and>
             found_from eq (elems haystack) (elems needle) p r \<and>
             (eq = (=) \<longrightarrow> leftmost_from eq (elems haystack) (elems needle) p r)"
  unfolding found_from_def leftmost_from_def
  by (rule qfind_loop_spec_raw [OF assms])

section \<open>What the search returns\<close>

lemma asciiCaseSensitive_eq: "asciiCaseSensitive = (=)"
  by (intro ext) (simp add: asciiCaseSensitive_def)

lemma qfind_log_spec:
  assumes vh: "valid haystack" and vn: "valid needle"
  shows "\<exists>r t. qfind_log haystack needle eq = Some (r, t) \<and>
           found_from eq (elems haystack) (elems needle) 0 r \<and>
           (eq = (=) \<longrightarrow> leftmost_from eq (elems haystack) (elems needle) 0 r) \<and>
           log_once needle eq t"
proof -
  let ?hs = "elems haystack" and ?ns = "elems needle"
  let ?n = "length ?ns"
  consider (short) "length ?hs < ?n" | (empty) "?n = 0" | (search) "1 \<le> ?n" "?n \<le> length ?hs"
    by arith
  then show ?thesis
  proof cases
    case short
    then have "qfind_log haystack needle eq = Some (npos, [])"
      by (simp add: qfind_log_def size_Range_valid vh vn)
    moreover have "found_from eq ?hs ?ns 0 npos"
      by (simp add: found_from_def)
    moreover have "leftmost_from eq ?hs ?ns 0 npos"
      using short by (simp add: leftmost_from_def match_at_def)
    moreover have "log_once needle eq []"
      by (simp add: log_once_def)
    ultimately show ?thesis by blast
  next
    case empty
    then have "qfind_log haystack needle eq = Some (0, [])"
      by (simp add: qfind_log_def size_Range_valid vh vn)
    moreover have "found_from eq ?hs ?ns 0 0"
      using empty by (simp add: found_from_def match_at_def npos_def)
    moreover have "leftmost_from eq ?hs ?ns 0 0"
      by (simp add: leftmost_from_def npos_def)
    moreover have "log_once needle eq []"
      by (simp add: log_once_def)
    ultimately show ?thesis by blast
  next
    case search
    let ?last = "?ns ! (?n - 1)"
    let ?iEnd = "b_iter haystack + (length ?hs - (?n - 1))"
    have nl: "?n - 1 < ?n" using search(1) by arith
    have li: "op_index needle (?n - 1) = Some ?last"
      by (rule op_index_valid [OF vn nl])
    have ie: "e_iter haystack - (?n - 1) = ?iEnd"
      using e_iter_valid [OF vh] search by arith
    have ne: "elems needle \<noteq> []" "\<not> length ?hs < ?n"
      using search by auto
    have "qfind_log haystack needle eq =
        op_index needle (?n - 1) \<bind>
        (\<lambda>lastNeedle. qfind_loop haystack needle eq ?n lastNeedle
           (e_iter haystack - (?n - 1)) (b_iter haystack) 0 [])"
      using ne by (simp add: qfind_log_def size_Range_valid vh vn)
    also have "\<dots> = qfind_loop haystack needle eq ?n ?last ?iEnd (b_iter haystack + 0) 0 []"
      by (simp only: li ie Option.bind.simps add_0_right)
    finally have unf: "qfind_log haystack needle eq =
        qfind_loop haystack needle eq ?n ?last ?iEnd (b_iter haystack + 0) 0 []" .
    have k1: "1 \<le> Suc (?n - 1)" by simp
    from skip_loop_spec [OF vn nl k1, of eq ?last] obtain s where
      s: "skip_loop needle eq (?n - 1) ?last 1 = Some s" by blast
    from qfind_loop_spec [OF vh vn refl search(1) search(2) refl refl s, of 0 0 "[]"]
    obtain r t where
      r: "qfind_loop haystack needle eq ?n ?last ?iEnd (b_iter haystack + 0) 0 [] = Some (r, [] @ t)"
        "log_shape 0 s t" "found_from eq ?hs ?ns 0 r"
        "eq = (=) \<longrightarrow> leftmost_from eq ?hs ?ns 0 r"
      by blast
    from r(2) have "t = [] \<or> (\<exists>k. t = Computed s # replicate (Suc k) (Advanced s))"
      by (simp add: log_shape_def)
    with s have "log_once needle eq t"
      unfolding log_once_def by blast
    moreover from unf r(1) have "qfind_log haystack needle eq = Some (r, t)" by simp
    ultimately show ?thesis using r(3) r(4) by blast
  qed
qed

lemma qfind_spec:
  assumes vh: "valid haystack" and vn: "valid needle"
  shows "\<exists>r. qfind haystack needle (=) = Some r \<and>
           (r = npos \<or> (r < npos \<and> occurs_at (elems haystack) (elems needle) r)) \<and>
           (\<forall>q. r = npos \<or> q < r \<longrightarrow> \<not> occurs_at (elems haystack) (elems needle) q)"
proof -
  from qfind_log_spec [OF vh vn, of "(=)"] obtain r t where
    r: "qfind_log haystack needle (=) = Some (r, t)"
    "found_from (=) (elems haystack) (elems needle) 0 r"
    "leftmost_from (=) (elems haystack) (elems needle) 0 r"
    by blast
  from r(1) have "qfind haystack needle (=) = Some r" by (simp add: qfind_def)
  moreover from r(2) have "r = npos \<or> (r < npos \<and> occurs_at (elems haystack) (elems needle) r)"
    by (simp add: found_from_def occurs_at_match_at)
  moreover from r(3) have "\<forall>q. r = npos \<or> q < r \<longrightarrow> \<not> occurs_at (elems haystack) (elems needle) q"
    by (simp add: leftmost_from_def occurs_at_match_at)
  ultimately show ?thesis by blast
qed




section \<open>The claims on the search\<close>

text \<open>
  On well-formed views of \<^verbatim>\<open>char\<close>, whenever the needle occurs in the haystack the
  two-argument \<^verbatim>\<open>qfind\<close> returns the smallest offset at which it occurs, and that
  offset is not \<open>npos\<close>; it returns \<open>npos\<close> exactly when the needle occurs at no offset;
  and \<^verbatim>\<open>find(Range)\<close> returns what \<^verbatim>\<open>qfind\<close> returns. Nothing is assumed of the
  elements, so repeated ones are covered.
\<close>

lemma qfind_default_leftmost:
  "valid haystack \<Longrightarrow> valid needle \<Longrightarrow>
   (occurs_at (elems haystack) (elems needle) k \<and>
    (\<forall>k'<k. \<not> occurs_at (elems haystack) (elems needle) k') \<longrightarrow>
      qfind_default haystack needle = Some k \<and> k \<noteq> npos) \<and>
   (qfind_default haystack needle = Some npos \<longleftrightarrow>
      (\<forall>q. \<not> occurs_at (elems haystack) (elems needle) q)) \<and>
   find_Range haystack needle = qfind_default haystack needle"
proof -
  assume vh: "valid haystack" and vn: "valid needle"
  let ?occ = "occurs_at (elems haystack) (elems needle)"
  from qfind_spec [OF vh vn] obtain r where
    r: "qfind_default haystack needle = Some r" "r = npos \<or> (r < npos \<and> ?occ r)"
      "\<forall>q. r = npos \<or> q < r \<longrightarrow> \<not> ?occ q"
    unfolding qfind_default_def asciiCaseSensitive_eq by blast
  have "r = k \<and> k \<noteq> npos" if "?occ k" "\<forall>k'<k. \<not> ?occ k'"
    using that r(2,3) by (metis linorder_neqE_nat)
  moreover have "r = npos \<longleftrightarrow> (\<forall>q. \<not> ?occ q)"
    using r(2,3) by auto
  ultimately show ?thesis using r(1) by (auto simp: find_Range_def)
qed

lemma qfind_default_leftmost_example:
  "valid \<lparr>mem = ''xxabcabdxx'', b_iter = 2, e_iter = 8\<rparr> \<and>
   valid \<lparr>mem = ''abd'', b_iter = 0, e_iter = 3\<rparr> \<and>
   occurs_at ''abcabd'' ''abd'' 3 \<and> \<not> occurs_at ''abcabd'' ''abd'' 0 \<and>
   \<not> occurs_at ''abcabd'' ''abd'' 1 \<and> \<not> occurs_at ''abcabd'' ''abd'' 2 \<and>
   qfind_default \<lparr>mem = ''xxabcabdxx'', b_iter = 2, e_iter = 8\<rparr>
     \<lparr>mem = ''abd'', b_iter = 0, e_iter = 3\<rparr> = Some 3 \<and>
   find_Range \<lparr>mem = ''xxabcabdxx'', b_iter = 2, e_iter = 8\<rparr>
     \<lparr>mem = ''abd'', b_iter = 0, e_iter = 3\<rparr> = Some 3 \<and>
   (\<forall>q. \<not> occurs_at ''abab'' ''abd'' q) \<and>
   qfind_default \<lparr>mem = ''abab'', b_iter = 0, e_iter = 4\<rparr>
     \<lparr>mem = ''abd'', b_iter = 0, e_iter = 3\<rparr> = Some npos"
proof -
  let ?h = "\<lparr>mem = ''xxabcabdxx'', b_iter = 2, e_iter = 8\<rparr> :: char Range"
  let ?h' = "\<lparr>mem = ''abab'', b_iter = 0, e_iter = 4\<rparr> :: char Range"
  let ?n = "\<lparr>mem = ''abd'', b_iter = 0, e_iter = 3\<rparr> :: char Range"
  have vh: "valid ?h" and vh': "valid ?h'" and vn: "valid ?n"
    by (simp_all add: valid_def npos_def)
  have eh: "elems ?h = ''abcabd''" and eh': "elems ?h' = ''abab''" and en: "elems ?n = ''abd''"
    by (simp_all add: elems_def)
  have o3: "occurs_at ''abcabd'' ''abd'' 3"
    by (simp add: occurs_at_def)
  have no3: "\<forall>k'<3. \<not> occurs_at ''abcabd'' ''abd'' k'"
    by (simp add: occurs_at_def numeral_3_eq_3 less_Suc_eq)
  have no: "\<forall>q. \<not> occurs_at ''abab'' ''abd'' q"
  proof (intro allI notI)
    fix q assume o: "occurs_at ''abab'' ''abd'' q"
    then have "q = 0 \<or> q = 1" by (auto simp: occurs_at_def)
    with o show False by (auto simp: occurs_at_def)
  qed
  from qfind_default_leftmost [OF vh vn, of 3] o3 no3
  have "qfind_default ?h ?n = Some 3" "find_Range ?h ?n = Some 3"
    unfolding eh en by simp_all
  moreover from qfind_default_leftmost [OF vh' vn, of 0] no
  have "qfind_default ?h' ?n = Some npos"
    unfolding eh' en by blast
  moreover have "\<not> occurs_at ''abcabd'' ''abd'' 0" "\<not> occurs_at ''abcabd'' ''abd'' 1"
    "\<not> occurs_at ''abcabd'' ''abd'' 2"
    by (simp_all add: occurs_at_def)
  ultimately show ?thesis using vh vn o3 no by blast
qed

lemma qfind_default_at_char: "qfind_default = qfind_default_at (\<lambda>c. c)"
  by (intro ext) (simp add: qfind_default_def qfind_default_at_def asciiCaseSensitive_eq)

lemma find_Range_at_char: "find_Range = find_Range_at (\<lambda>c. c)"
  by (intro ext) (simp add: find_Range_def find_Range_at_def qfind_default_at_char)

text \<open>
  At any element type whose conversion to \<^verbatim>\<open>char\<close> loses nothing the same holds,
  since there the comparator is equality.
\<close>

lemma qfind_default_at_leftmost:
  assumes inj: "inj conv" and vh: "valid haystack" and vn: "valid needle"
  shows "(occurs_at (elems haystack) (elems needle) k \<and>
          (\<forall>k'<k. \<not> occurs_at (elems haystack) (elems needle) k') \<longrightarrow>
            find_Range_at conv haystack needle = Some k \<and> k \<noteq> npos) \<and>
         (find_Range_at conv haystack needle = Some npos \<longleftrightarrow>
            (\<forall>q. \<not> occurs_at (elems haystack) (elems needle) q)) \<and>
         find_Range_at conv haystack needle = qfind_default_at conv haystack needle"
proof -
  let ?occ = "occurs_at (elems haystack) (elems needle)"
  have "(\<lambda>lhs rhs. asciiCaseSensitive (conv lhs) (conv rhs)) = (=)"
    using inj by (intro ext) (auto simp: asciiCaseSensitive_def inj_def)
  then have q: "qfind_default_at conv haystack needle = qfind haystack needle (=)"
    by (simp add: qfind_default_at_def)
  from qfind_spec [OF vh vn] obtain r where
    r: "qfind haystack needle (=) = Some r" "r = npos \<or> (r < npos \<and> ?occ r)"
      "\<forall>q. r = npos \<or> q < r \<longrightarrow> \<not> ?occ q"
    by blast
  have "r = k \<and> k \<noteq> npos" if "?occ k" "\<forall>k'<k. \<not> ?occ k'"
    using that r(2,3) by (metis linorder_neqE_nat)
  moreover have "r = npos \<longleftrightarrow> (\<forall>q. \<not> ?occ q)"
    using r(2,3) by auto
  ultimately show ?thesis using r(1) q by (auto simp: find_Range_at_def)
qed

text \<open>
  C1. The claim is that for every haystack view and needle view the two-argument
  \<^verbatim>\<open>qfind\<close>, and \<^verbatim>\<open>find(Range)\<close> with it, returns the smallest offset at which the
  needle occurs, and \<open>npos\<close> exactly when it occurs at no offset. On views of
  \<^verbatim>\<open>char\<close> that is so (\<open>qfind_default_leftmost\<close>). On views of \<^verbatim>\<open>int\<close> the
  template compares the elements through \<^verbatim>\<open>AsciiCaseSensitive\<close>, that is after
  narrowing them to \<^verbatim>\<open>char\<close>: in the haystack \<open>{256, 0}\<close> the needle \<open>{0}\<close> occurs at
  offset 1 and not at offset 0, the search under equality returns 1, and the
  two-argument \<^verbatim>\<open>qfind\<close> and \<^verbatim>\<open>find\<close> return 0.
\<close>

theorem qfind_default_narrows_int:
  "valid (\<lparr>mem = [256, 0], b_iter = 0, e_iter = 2\<rparr> :: 32 word Range) \<and>
   valid (\<lparr>mem = [0], b_iter = 0, e_iter = 1\<rparr> :: 32 word Range) \<and>
   elems (\<lparr>mem = [256, 0], b_iter = 0, e_iter = 2\<rparr> :: 32 word Range) = [256, 0] \<and>
   elems (\<lparr>mem = [0], b_iter = 0, e_iter = 1\<rparr> :: 32 word Range) = [0] \<and>
   \<not> occurs_at [256, 0] [0 :: 32 word] 0 \<and> occurs_at [256, 0] [0 :: 32 word] 1 \<and>
   qfind \<lparr>mem = [256, 0], b_iter = 0, e_iter = 2\<rparr>
     (\<lparr>mem = [0], b_iter = 0, e_iter = 1\<rparr> :: 32 word Range) (=) = Some 1 \<and>
   qfind_default_at int_to_char \<lparr>mem = [256, 0], b_iter = 0, e_iter = 2\<rparr>
     \<lparr>mem = [0], b_iter = 0, e_iter = 1\<rparr> = Some 0 \<and>
   find_Range_at int_to_char \<lparr>mem = [256, 0], b_iter = 0, e_iter = 2\<rparr>
     \<lparr>mem = [0], b_iter = 0, e_iter = 1\<rparr> = Some 0"
proof -
  let ?h = "\<lparr>mem = [256, 0], b_iter = 0, e_iter = 2\<rparr> :: 32 word Range"
  let ?n = "\<lparr>mem = [0], b_iter = 0, e_iter = 1\<rparr> :: 32 word Range"
  have v: "valid ?h" "valid ?n"
    by (simp_all add: valid_def npos_def)
  have e: "elems ?h = [256, 0]" "elems ?n = [0]"
    by (simp_all add: elems_def)
  have o: "\<not> occurs_at [256, 0] [0 :: 32 word] 0" "occurs_at [256, 0] [0 :: 32 word] 1"
    by (simp_all add: occurs_at_def)
  have q3: "qfind ?h ?n (=) = Some 1" by code_simp
  have q2: "qfind_default_at int_to_char ?h ?n = Some 0" by code_simp
  then have f: "find_Range_at int_to_char ?h ?n = Some 0"
    by (simp only: find_Range_at_def)
  from v e o q3 q2 f show ?thesis by blast
qed

lemma skip_loop_is_skip_spec:
  assumes vn: "valid needle" and ne: "elems needle \<noteq> []"
  shows "skip_loop needle eq (length (elems needle) - 1)
           (elems needle ! (length (elems needle) - 1)) 1 = Some (skip_spec eq (elems needle))"
proof -
  let ?ns = "elems needle"
  let ?n = "length ?ns"
  let ?P = "\<lambda>d. eq (?ns ! (?n - 1 - d)) (?ns ! (?n - 1))"
  have nl: "?n - 1 < ?n" using ne by simp
  have k1: "1 \<le> Suc (?n - 1)" by simp
  from skip_loop_spec [OF vn nl k1, of eq "?ns ! (?n - 1)"] obtain s where
    s: "skip_loop needle eq (?n - 1) (?ns ! (?n - 1)) 1 = Some s" "1 \<le> s" "s \<le> Suc (?n - 1)"
      "\<forall>d. 1 \<le> d \<and> d < s \<longrightarrow> \<not> ?P d" "s \<le> ?n - 1 \<longrightarrow> ?P s"
    by blast
  have "skip_spec eq ?ns = s"
  proof (cases "s \<le> ?n - 1")
    case True
    with s(5) have Ps: "?P s" by blast
    have i: "s - 1 < length [1..<?n]" using True s(2) by simp
    have at: "[1..<?n] ! (s - 1) = s" using True s(2) by simp
    have before: "\<not> ?P ([1..<?n] ! j)" if "j < s - 1" for j
    proof -
      have "[1..<?n] ! j = Suc j" using that True by simp
      moreover have "1 \<le> Suc j \<and> Suc j < s" using that by arith
      ultimately show ?thesis using s(4) by metis
    qed
    have "List.find ?P [1..<?n] = Some s"
      unfolding find_Some_iff using i at Ps before by (intro exI [of _ "s - 1"]) simp
    then show ?thesis by (simp add: skip_spec_def)
  next
    case False
    with s(3) have sn: "s = ?n" using nl by arith
    have "\<not> ?P d" if "d \<in> set [1..<?n]" for d
      using that s(4) sn by simp
    then have "List.find ?P [1..<?n] = None"
      unfolding find_None_iff by blast
    then show ?thesis by (simp add: skip_spec_def sn)
  qed
  with s(1) show ?thesis by simp
qed


text \<open>
  C2. One invocation on well-formed views with a non-empty needle, under any
  comparator, leaves a log that is empty or is one computation of the skip followed
  by one or more advances, every one of them by the computed value: the block under
  \<^verbatim>\<open>if (skip == 0)\<close> runs at most once, at the first mismatch of the pedestrian loop,
  and \<^verbatim>\<open>skip\<close> keeps its value from then on. The value the header's loop computes is
  \<open>skip_spec\<close>: the distance from the last position of the needle back to the nearest
  earlier position whose element the comparator equates with the last element, and
  the needle's length when there is no such position.
\<close>

theorem qfind_skip_once:
  "valid haystack \<Longrightarrow> valid needle \<Longrightarrow> elems needle \<noteq> [] \<Longrightarrow>
   skip_loop needle eq (length (elems needle) - 1)
     (elems needle ! (length (elems needle) - 1)) 1 = Some (skip_spec eq (elems needle)) \<and>
   (\<exists>r k. qfind_log haystack needle eq = Some (r, []) \<or>
          qfind_log haystack needle eq =
            Some (r, Computed (skip_spec eq (elems needle)) #
                     replicate (Suc k) (Advanced (skip_spec eq (elems needle)))))"
proof -
  assume vh: "valid haystack" and vn: "valid needle" and ne: "elems needle \<noteq> []"
  note sk = skip_loop_is_skip_spec [OF vn ne, of eq]
  from qfind_log_spec [OF vh vn, of eq] obtain r t where
    r: "qfind_log haystack needle eq = Some (r, t)" "log_once needle eq t"
    by blast
  from r(2) sk
  have "t = [] \<or> (\<exists>k. t = Computed (skip_spec eq (elems needle)) #
      replicate (Suc k) (Advanced (skip_spec eq (elems needle))))"
    unfolding log_once_def by auto
  with r(1) sk show ?thesis by blast
qed

theorem qfind_skip_once_witness:
  "valid \<lparr>mem = ''xbcabcxbcabcabc'', b_iter = 0, e_iter = 15\<rparr> \<and>
   valid \<lparr>mem = ''abcabc'', b_iter = 0, e_iter = 6\<rparr> \<and>
   elems \<lparr>mem = ''abcabc'', b_iter = 0, e_iter = 6\<rparr> \<noteq> [] \<and>
   skip_spec (=) ''abcabc'' = 3 \<and> skip_spec (=) ''abcd'' = 4 \<and>
   skip_loop \<lparr>mem = ''abcabc'', b_iter = 0, e_iter = 6\<rparr> (=) 5 (CHR ''c'') 1 = Some 3 \<and>
   qfind_log \<lparr>mem = ''xbcabcxbcabcabc'', b_iter = 0, e_iter = 15\<rparr>
     \<lparr>mem = ''abcabc'', b_iter = 0, e_iter = 6\<rparr> (=) =
     Some (9, [Computed 3, Advanced 3, Advanced 3, Advanced 3])"
proof -
  let ?h = "\<lparr>mem = ''xbcabcxbcabcabc'', b_iter = 0, e_iter = 15\<rparr> :: char Range"
  let ?n = "\<lparr>mem = ''abcabc'', b_iter = 0, e_iter = 6\<rparr> :: char Range"
  have vh: "valid ?h" and vn: "valid ?n"
    by (simp_all add: valid_def npos_def)
  have en: "elems ?n = ''abcabc''" by (simp add: elems_def)
  have ne: "elems ?n \<noteq> []" by (simp add: en)
  have sp: "skip_spec (=) ''abcabc'' = 3" "skip_spec (=) ''abcd'' = 4" by code_simp+
  have run: "qfind_log ?h ?n (=) = Some (9, [Computed 3, Advanced 3, Advanced 3, Advanced 3])"
    by code_simp
  have l: "length ''abcabc'' - 1 = 5" "''abcabc'' ! 5 = CHR ''c''" by simp_all
  from qfind_skip_once [OF vh vn ne, of "(=)"]
  have "skip_loop ?n (=) 5 (CHR ''c'') 1 = Some 3"
    unfolding en sp l by blast
  with vh vn ne sp run show ?thesis by blast
qed

text \<open>
  C4. On well-formed views and under any comparator, \<^verbatim>\<open>qfind\<close> returns: the model's
  loops are total functions, the call is never fatal (no assertion or check fails and
  no read leaves a view), and the value is \<open>npos\<close> or a match offset: an offset
  under \<open>npos\<close> at which the needle fits in the haystack and the comparator holds of
  every element of the haystack's window and its counterpart in the needle. When the needle's size exceeds the haystack's, the value is
  \<open>npos\<close> and nothing was done with \<^verbatim>\<open>skip\<close>; this needs only that the two sizes can
  be taken, so it holds for views no element of which can be read, where a single
  read would have been fatal.
\<close>

theorem qfind_total:
  "(valid haystack \<and> valid needle \<longrightarrow>
      (\<exists>r. qfind haystack needle eq = Some r \<and>
           (r = npos \<or>
            (r < npos \<and> r + length (elems needle) \<le> length (elems haystack) \<and>
             match_at eq (elems haystack) (elems needle) r)))) \<and>
   (size_Range haystack' = Some hsize \<and> size_Range needle' = Some nsize \<and> hsize < nsize \<longrightarrow>
      qfind_log haystack' needle' eq = Some (npos, []))"
proof -
  have "\<exists>r. qfind haystack needle eq = Some r \<and>
      (r = npos \<or>
       (r < npos \<and> r + length (elems needle) \<le> length (elems haystack) \<and>
        match_at eq (elems haystack) (elems needle) r))"
    if vh: "valid haystack" and vn: "valid needle"
  proof -
    from qfind_log_spec [OF vh vn, of eq] obtain r t where
      "qfind_log haystack needle eq = Some (r, t)"
      "found_from eq (elems haystack) (elems needle) 0 r"
      by blast
    then show ?thesis
      by (intro exI [of _ r]) (auto simp: qfind_def found_from_def match_at_def)
  qed
  moreover have "qfind_log haystack' needle' eq = Some (npos, [])"
    if "size_Range haystack' = Some hsize" "size_Range needle' = Some nsize" "hsize < nsize"
    using that by (simp add: qfind_log_def)
  ultimately show ?thesis by blast
qed

theorem qfind_total_witness:
  "valid \<lparr>mem = ''aabab'', b_iter = 0, e_iter = 5\<rparr> \<and>
   valid \<lparr>mem = ''xxba'', b_iter = 2, e_iter = 4\<rparr> \<and>
   qfind \<lparr>mem = ''aabab'', b_iter = 0, e_iter = 5\<rparr> \<lparr>mem = ''xxba'', b_iter = 2, e_iter = 4\<rparr> (=) =
     Some 2 \<and>
   match_at (=) ''aabab'' ''ba'' 2 \<and>
   size_Range (\<lparr>mem = [], b_iter = 5, e_iter = 7\<rparr> :: char Range) = Some 2 \<and>
   size_Range (\<lparr>mem = [], b_iter = 2, e_iter = 5\<rparr> :: char Range) = Some 3 \<and> (2::nat) < 3 \<and>
   qfind_log (\<lparr>mem = [], b_iter = 5, e_iter = 7\<rparr> :: char Range) (\<lparr>mem = [], b_iter = 2, e_iter = 5\<rparr> :: char Range)
     (\<lambda>a b. a = (b::char)) = Some (npos, [])"
proof -
  let ?h = "\<lparr>mem = ''aabab'', b_iter = 0, e_iter = 5\<rparr> :: char Range"
  let ?n = "\<lparr>mem = ''xxba'', b_iter = 2, e_iter = 4\<rparr> :: char Range"
  let ?h' = "\<lparr>mem = [], b_iter = 5, e_iter = 7\<rparr> :: char Range"
  let ?n' = "\<lparr>mem = [], b_iter = 2, e_iter = 5\<rparr> :: char Range"
  have vh: "valid ?h" and vn: "valid ?n"
    by (simp_all add: valid_def npos_def)
  have sh: "size_Range ?h' = Some 2" and sn: "size_Range ?n' = Some 3"
    by (simp_all add: size_Range_def)
  have lt: "(2::nat) < 3" by simp
  have run: "qfind ?h ?n (=) = Some 2" by code_simp
  have e: "elems ?h = ''aabab''" "elems ?n = ''ba''"
    by (simp_all add: elems_def)
  have ne: "(2::nat) \<noteq> npos" by (simp add: npos_def)
  from qfind_total [of ?h ?n "(=)" ?h' 2 ?n' 3] vh vn sh sn lt
  have found: "\<exists>r. qfind ?h ?n (=) = Some r \<and>
      (r = npos \<or>
       (r < npos \<and> r + length (elems ?n) \<le> length (elems ?h) \<and>
        match_at (=) (elems ?h) (elems ?n) r))"
    and long: "qfind_log ?h' ?n' (=) = Some (npos, [])"
    by blast+
  from found run ne have "match_at (=) (elems ?h) (elems ?n) 2" by auto
  then have m: "match_at (=) ''aabab'' ''ba'' 2" by (simp only: e)
  from vh vn sh sn lt run m long show ?thesis by blast
qed



section \<open>The search from an offset\<close>






section \<open>Comparison\<close>

text \<open>
  Where both sizes are under \<open>2 ^ 31\<close> the difference of the sizes fits an
  \<^verbatim>\<open>int\<close>, and \<^verbatim>\<open>compare\<close> is the three-way comparison of the views in the
  lexicographic order of their elements' plain \<^verbatim>\<open>char\<close> values, in which a proper
  prefix comes first. \<^verbatim>\<open>operator==\<close> is equality of the element lists at every size.
\<close>

lemma size_t_to_int_small:
  assumes "t < 2 ^ 31" "s < 2 ^ 31"
  shows "size_t_to_int (word_of_nat t - word_of_nat s) = int t - int s"
proof -
  have a: "(word_of_nat t - word_of_nat s :: 64 word) = word_of_int (int t - int s)"
  proof -
    have "(word_of_nat t :: 64 word) = word_of_int (int t)"
      "(word_of_nat s :: 64 word) = word_of_int (int s)"
      by (rule of_int_of_nat_eq [symmetric])+
    then show ?thesis by (simp only: wi_hom_sub)
  qed
  have d: "is_down (ucast :: 64 word \<Rightarrow> 32 word)"
    by (simp add: is_down)
  have "size_t_to_int (word_of_nat t - word_of_nat s) =
      sint (word_of_int (int t - int s) :: 32 word)"
    unfolding size_t_to_int_def a by (simp only: ucast_down_wi [OF d])
  also have "\<dots> = signed_take_bit 31 (int t - int s)"
    by (simp only: sint_sbintrunc') simp
  also have "\<dots> = int t - int s"
    using assms by (intro signed_take_bit_int_eq_self) auto
  finally show ?thesis .
qed


lemma traits_compare_equal:
  assumes va: "valid s1" and vb: "valid s2"
    and n: "n \<le> length (elems s1)" "n \<le> length (elems s2)"
    and same: "\<forall>j. k \<le> j \<and> j < n \<longrightarrow> elems s1 ! j = elems s2 ! j"
  shows "traits_compare s1 s2 n k = Some 0"
  using same
proof (induction "n - k" arbitrary: k)
  case 0
  then show ?case by (subst traits_compare.simps) simp
next
  case (Suc m)
  then have k: "k < n" by simp
  have r1: "deref s1 (b_iter s1 + k) = Some (elems s1 ! k)"
    and r2: "deref s2 (b_iter s2 + k) = Some (elems s2 ! k)"
    using k n by (simp_all add: deref_valid va vb)
  have e: "elems s1 ! k = elems s2 ! k" using Suc.prems k by simp
  have "traits_compare s1 s2 n (Suc k) = Some 0"
    using Suc.hyps(2) Suc.prems by (intro Suc.hyps(1)) auto
  then show ?case
    using k by (subst traits_compare.simps) (simp add: r1 r2 e)
qed

lemma char_value_inj: "char_value c = char_value d \<longleftrightarrow> c = d"
proof
  assume "char_value c = char_value d"
  then have "(of_char c :: 8 word) = of_char d"
    unfolding char_value_def by (rule signed_word_eqI)
  then have "unat (word_of_nat (of_char c) :: 8 word) = unat (word_of_nat (of_char d) :: 8 word)"
    by (simp only: of_nat_of_char)
  moreover have "(of_char c :: nat) mod 2 ^ 8 = of_char c" "(of_char d :: nat) mod 2 ^ 8 = of_char d"
    using nat_of_char_less_256 [of c] nat_of_char_less_256 [of d] by simp_all
  ultimately have "(of_char c :: nat) = of_char d"
    by (simp add: unat_of_nat)
  then show "c = d" by simp
qed simp

lemma traits_compare_differ:
  assumes va: "valid s1" and vb: "valid s2"
    and n: "n \<le> length (elems s1)" "n \<le> length (elems s2)"
    and i: "k \<le> i" "i < n"
    and same: "\<forall>j. k \<le> j \<and> j < i \<longrightarrow> elems s1 ! j = elems s2 ! j"
    and ne: "elems s1 ! i \<noteq> elems s2 ! i"
  shows "traits_compare s1 s2 n k =
         Some (if char_value (elems s1 ! i) < char_value (elems s2 ! i) then - 1 else 1)"
  using i(1) same
proof (induction "i - k" arbitrary: k)
  case 0
  then have k: "k = i" by simp
  have r1: "deref s1 (b_iter s1 + i) = Some (elems s1 ! i)"
    and r2: "deref s2 (b_iter s2 + i) = Some (elems s2 ! i)"
    using i n by (simp_all add: deref_valid va vb)
  have "char_value (elems s1 ! i) \<noteq> char_value (elems s2 ! i)"
    using ne by (simp add: char_value_inj)
  then show ?case
    unfolding k using i(2) by (subst traits_compare.simps) (auto simp: r1 r2)
next
  case (Suc m)
  then have k: "k < i" by simp
  then have kn: "k < n" using i(2) by simp
  have r1: "deref s1 (b_iter s1 + k) = Some (elems s1 ! k)"
    and r2: "deref s2 (b_iter s2 + k) = Some (elems s2 ! k)"
    using kn n by (simp_all add: deref_valid va vb)
  have e: "elems s1 ! k = elems s2 ! k" using Suc.prems k by simp
  have "traits_compare s1 s2 n (Suc k) =
      Some (if char_value (elems s1 ! i) < char_value (elems s2 ! i) then - 1 else 1)"
    using Suc.hyps(2) Suc.prems k by (intro Suc.hyps(1)) auto
  then show ?case
    using kn by (subst traits_compare.simps) (simp add: r1 r2 e)
qed

lemma list_less_first_difference:
  fixes xs ys :: "int list"
  assumes "i < length xs" "i < length ys" "\<forall>j<i. xs ! j = ys ! j" "xs ! i < ys ! i"
  shows "xs < ys"
proof -
  have "take i xs = take i ys"
    using assms(1-3) by (intro nth_take_lemma) auto
  then show ?thesis
    unfolding list_less_def lexord_take_index_conv using assms by auto
qed

lemma list_less_proper_prefix:
  fixes xs ys :: "int list"
  assumes "length xs < length ys" "\<forall>j<length xs. xs ! j = ys ! j"
  shows "xs < ys"
proof -
  have "take (length xs) ys = xs"
    using assms by (intro nth_equalityI) auto
  then show ?thesis
    unfolding list_less_def lexord_take_index_conv using assms(1) by auto
qed

lemma compare_small_views:
  assumes va: "valid a" and vb: "valid b"
    and small: "length (elems a) < 2 ^ 31" "length (elems b) < 2 ^ 31"
  shows "\<exists>c. compare a b = Some c \<and>
             (c < 0 \<longleftrightarrow> map char_value (elems a) < map char_value (elems b)) \<and>
             (c = 0 \<longleftrightarrow> elems a = elems b) \<and>
             (0 < c \<longleftrightarrow> map char_value (elems b) < map char_value (elems a))"
proof -
  let ?xs = "elems a" and ?ys = "elems b"
  let ?vx = "map char_value ?xs" and ?vy = "map char_value ?ys"
  let ?n = "min (length ?xs) (length ?ys)"
  have n: "?n \<le> length ?xs" "?n \<le> length ?ys" by simp_all
  have cmp: "compare a b = Some (if c = 0 then int (length ?xs) - int (length ?ys) else c)"
    if "traits_compare a b ?n 0 = Some c" for c
    using that
    by (simp add: compare_def size_Range_valid va vb size_t_to_int_small [OF small])
  show ?thesis
  proof (cases "\<exists>i. i < ?n \<and> ?xs ! i \<noteq> ?ys ! i")
    case True
    then obtain i where i: "i < ?n" "?xs ! i \<noteq> ?ys ! i" "\<forall>j<i. \<not> (j < ?n \<and> ?xs ! j \<noteq> ?ys ! j)"
      using exists_least_iff [of "\<lambda>i. i < ?n \<and> ?xs ! i \<noteq> ?ys ! i"] by blast
    then have same: "\<forall>j<i. ?xs ! j = ?ys ! j" by auto
    then have same0: "\<forall>j. 0 \<le> j \<and> j < i \<longrightarrow> ?xs ! j = ?ys ! j" by simp
    have il: "i < length ?vx" "i < length ?vy" using i(1) by simp_all
    have vsame: "\<forall>j<i. ?vx ! j = ?vy ! j" using same i(1) by simp
    have vi: "?vx ! i = char_value (?xs ! i)" "?vy ! i = char_value (?ys ! i)"
      using i(1) by simp_all
    have neq: "?xs \<noteq> ?ys" using i(2) by auto
    from traits_compare_differ [OF va vb n _ i(1) same0 i(2)]
    have tc: "traits_compare a b ?n 0 =
        Some (if char_value (?xs ! i) < char_value (?ys ! i) then - 1 else 1)" by simp
    show ?thesis
    proof (cases "char_value (?xs ! i) < char_value (?ys ! i)")
      case T: True
      then have "?vx ! i < ?vy ! i" by (simp only: vi)
      then have "?vx < ?vy" by (rule list_less_first_difference [OF il vsame])
      moreover from cmp [OF tc] T have "compare a b = Some (- 1)" by simp
      ultimately show ?thesis using neq by auto
    next
      case False
      moreover have "char_value (?xs ! i) \<noteq> char_value (?ys ! i)"
        using i(2) by (simp add: char_value_inj)
      ultimately have "?vy ! i < ?vx ! i" by (simp only: vi)
      moreover from vsame have "\<forall>j<i. ?vy ! j = ?vx ! j" by simp
      ultimately have "?vy < ?vx" by (intro list_less_first_difference [OF il(2) il(1)])
      moreover from cmp [OF tc] False have "compare a b = Some 1" by simp
      ultimately show ?thesis using neq by auto
    qed
  next
    case False
    then have same: "\<forall>j<?n. ?xs ! j = ?ys ! j" by blast
    then have "traits_compare a b ?n 0 = Some 0"
      by (intro traits_compare_equal [OF va vb n]) simp
    from cmp [OF this]
    have c: "compare a b = Some (int (length ?xs) - int (length ?ys))" by simp
    consider (lt) "length ?xs < length ?ys" | (eq) "length ?xs = length ?ys"
      | (gt) "length ?ys < length ?xs" by arith
    then show ?thesis
    proof cases
      case lt
      then have "?vx < ?vy" using same by (intro list_less_proper_prefix) auto
      with c lt show ?thesis by auto
    next
      case eq
      then have "?xs = ?ys" using same by (intro nth_equalityI) auto
      with c show ?thesis by simp
    next
      case gt
      then have "?vy < ?vx" using same by (intro list_less_proper_prefix) auto
      with c gt show ?thesis by auto
    qed
  qed
qed

lemma op_eq_elems:
  assumes va: "valid a" and vb: "valid b"
  shows "op_eq a b = Some (elems a = elems b)"
proof (cases "length (elems a) = length (elems b)")
  case False
  then show ?thesis
    by (auto simp: op_eq_def size_Range_valid va vb)
next
  case True
  let ?n = "min (length (elems a)) (length (elems b))"
  have z: "size_t_to_int (word_of_nat (length (elems b)) - word_of_nat (length (elems b))) = 0"
    by (simp add: size_t_to_int_def)
  show ?thesis
  proof (cases "\<exists>i. i < ?n \<and> elems a ! i \<noteq> elems b ! i")
    case T: True
    then obtain i where i: "i < ?n" "elems a ! i \<noteq> elems b ! i"
      "\<forall>j<i. \<not> (j < ?n \<and> elems a ! j \<noteq> elems b ! j)"
      using exists_least_iff [of "\<lambda>i. i < ?n \<and> elems a ! i \<noteq> elems b ! i"] by blast
    then have same0: "\<forall>j. 0 \<le> j \<and> j < i \<longrightarrow> elems a ! j = elems b ! j" by auto
    from traits_compare_differ [OF va vb _ _ _ i(1) same0 i(2)]
    have "traits_compare a b ?n 0 = Some (if char_value (elems a ! i) < char_value (elems b ! i) then - 1 else 1)" by simp
    moreover have "elems a \<noteq> elems b" using i(2) by auto
    ultimately show ?thesis
      using True by (simp add: op_eq_def compare_def size_Range_valid va vb)
  next
    case F: False
    then have same: "\<forall>j. 0 \<le> j \<and> j < ?n \<longrightarrow> elems a ! j = elems b ! j" by blast
    from traits_compare_equal [OF va vb _ _ same]
    have "traits_compare a b ?n 0 = Some 0" by simp
    moreover have "elems a = elems b" using True same by (intro nth_equalityI) auto
    ultimately show ?thesis
      using True z by (simp add: op_eq_def compare_def size_Range_valid va vb)
  qed
qed

lemma compare_plain_char_examples:
  "compare \<lparr>mem = [CHR 0x80], b_iter = 0, e_iter = 1\<rparr> \<lparr>mem = ''a'', b_iter = 0, e_iter = 1\<rparr> =
     Some (- 1)"
  "op_less \<lparr>mem = [CHR 0xFF], b_iter = 0, e_iter = 1\<rparr> \<lparr>mem = ''a'', b_iter = 0, e_iter = 1\<rparr> =
     Some True"
  "compare \<lparr>mem = ''ab'', b_iter = 0, e_iter = 2\<rparr> \<lparr>mem = ''abc'', b_iter = 0, e_iter = 3\<rparr> =
     Some (- 1)"
  by code_simp+

text \<open>
  C5. The claim is that \<^verbatim>\<open>compare\<close> returns 0 only on views with the same elements
  and orders views strictly, a proper prefix first. The header assigns the
  \<^verbatim>\<open>size_t\<close> difference of the sizes to an \<^verbatim>\<open>int\<close>, and the claim fails where the
  difference does not fit: a view of \<open>2 ^ 32\<close> elements compares as 0 with the empty
  view, though \<^verbatim>\<open>operator==\<close>, which compares the sizes first, tells them apart; and a
  view of \<open>2 ^ 31\<close> elements and the empty view are each \<^verbatim>\<open><\<close> the other.
\<close>

theorem compare_truncates_size_difference:
  "valid \<lparr>mem = replicate (2 ^ 32) (CHR ''a''), b_iter = 0, e_iter = 2 ^ 32\<rparr> \<and>
   valid (\<lparr>mem = [], b_iter = 0, e_iter = 0\<rparr> :: char Range) \<and>
   compare \<lparr>mem = replicate (2 ^ 32) (CHR ''a''), b_iter = 0, e_iter = 2 ^ 32\<rparr>
     \<lparr>mem = [], b_iter = 0, e_iter = 0\<rparr> = Some 0 \<and>
   op_eq \<lparr>mem = replicate (2 ^ 32) (CHR ''a''), b_iter = 0, e_iter = 2 ^ 32\<rparr>
     \<lparr>mem = [], b_iter = 0, e_iter = 0\<rparr> = Some False \<and>
   valid \<lparr>mem = replicate (2 ^ 31) (CHR ''a''), b_iter = 0, e_iter = 2 ^ 31\<rparr> \<and>
   op_less \<lparr>mem = replicate (2 ^ 31) (CHR ''a''), b_iter = 0, e_iter = 2 ^ 31\<rparr>
     \<lparr>mem = [], b_iter = 0, e_iter = 0\<rparr> = Some True \<and>
   op_less \<lparr>mem = [], b_iter = 0, e_iter = 0\<rparr>
     \<lparr>mem = replicate (2 ^ 31) (CHR ''a''), b_iter = 0, e_iter = 2 ^ 31\<rparr> = Some True"
proof -
  let ?a = "\<lparr>mem = replicate (2 ^ 32) (CHR ''a''), b_iter = 0, e_iter = 2 ^ 32\<rparr>"
  let ?a' = "\<lparr>mem = replicate (2 ^ 31) (CHR ''a''), b_iter = 0, e_iter = 2 ^ 31\<rparr>"
  let ?e = "\<lparr>mem = [], b_iter = 0, e_iter = 0\<rparr> :: char Range"
  have v: "valid ?a" "valid ?a'" "valid ?e"
    by (simp_all add: valid_def npos_def)
  have sz: "size_Range ?a = Some (2 ^ 32)" "size_Range ?a' = Some (2 ^ 31)" "size_Range ?e = Some 0"
    by (simp_all add: size_Range_def)
  have tc: "traits_compare x y 0 0 = Some 0" for x y
    by (subst traits_compare.simps) simp
  have c: "compare ?a ?e = Some 0"
    unfolding compare_def sz by (simp add: tc size_t_to_int_def)
  have c1: "compare ?a' ?e = Some (- (2 ^ 31))"
    unfolding compare_def sz by (simp add: tc size_t_to_int_def)
  have c2: "compare ?e ?a' = Some (- (2 ^ 31))"
    unfolding compare_def sz by (simp add: tc size_t_to_int_def)
  have e: "op_eq ?a ?e = Some False"
    unfolding op_eq_def sz by simp
  have l1: "op_less ?a' ?e = Some True" unfolding op_less_def c1 by simp
  have l2: "op_less ?e ?a' = Some True" unfolding op_less_def c2 by simp
  from v c e l1 l2 show ?thesis by blast
qed

end
